theory Spec2Isabelle
  imports Main "HOL-Library.Word"
begin

unbundle bit_operations_syntax

section \<open>Data model\<close>

text \<open>
  A \<open>Uint8Array\<close> is a list of bytes. A JavaScript number that goes through the
  bitwise operators \<open>&\<close>, \<open>^\<close> and \<open>\<^verbatim>\<open><<\<close>\<close> is a 32-bit integer: reading
  an array element widens the byte (\<open>ucast\<close>), storing into the array keeps the low
  eight bits (\<open>ucast\<close> again). A store beyond the end of a typed array is ignored,
  which is what \<open>xs[i := v]\<close> does as well.
\<close>

type_synonym byte = "8 word"
type_synonym bytes = "byte list"
type_synonym number = "32 word"

text \<open>\<open>enum Mode { ECB = 1, CBC }\<close>: a numeric enum, a number at run time.\<close>

type_synonym Mode = nat

definition ECB :: Mode where
  "ECB = 1"

definition CBC :: Mode where
  "CBC = 2"

text \<open>
  Modelled from the spec: the padding module (\<open>utils/padding.ts\<close>: \<open>Padding\<close>,
  \<open>pad\<close>, \<open>unpad\<close>) is not part of the sources at hand. The spec knows one scheme,
  PKCS7, which is also the default of the class.
\<close>

datatype Padding = PKCS7

datatype error =
    IVNotSet          \<comment> \<open>"IV is not set."\<close>
  | IVLength          \<comment> \<open>"IV should be 16 bytes long."\<close>
  | KeyLength         \<comment> \<open>"Key should be 16, 24 or 32 bytes long"\<close>
  | InputLength       \<comment> \<open>"Input should be multiple of 16"\<close>
  | UnsupportedMode   \<comment> \<open>"Unsupported Mode."\<close>
  | PaddingError      \<comment> \<open>raised by \<open>unpad\<close>\<close>

record AESOptions =
  opt_mode :: "Mode option"
  opt_iv :: "bytes option"
  opt_padding :: "Padding option"

record AES =
  key :: bytes
  mode :: Mode
  iv :: "bytes option"
  padding :: Padding

section \<open>Typed arrays\<close>

text \<open>
  \<open>a.subarray(b, e)\<close> is the view of \<open>a\<close> from \<open>b\<close> up to \<open>e\<close>, cut at the end
  of \<open>a\<close>. \<open>target.set(source, offset)\<close> copies \<open>source\<close> into \<open>target\<close> at
  \<open>offset\<close>; it would raise a RangeError if the source did not fit, which does not
  happen at any call below: a block is never longer than the rest of the buffer it
  was cut from, and the buffers written to are as long as the ones read.
\<close>

definition subarray :: "bytes \<Rightarrow> nat \<Rightarrow> nat \<Rightarrow> bytes" where
  "subarray a b e = take (e - b) (drop b a)"

definition set_array :: "bytes \<Rightarrow> bytes \<Rightarrow> nat \<Rightarrow> bytes" where
  "set_array target source offset =
     take offset target @ source @ drop (offset + length source) target"

section \<open>Tables\<close>

definition RCON :: "byte list" where
  "RCON = [0x8d, 0x01, 0x02, 0x04, 0x08, 0x10, 0x20, 0x40, 0x80, 0x1b, 0x36]"

definition SBOX :: "byte list" where
  "SBOX = [
     0x63, 0x7c, 0x77, 0x7b, 0xf2, 0x6b, 0x6f, 0xc5, 0x30, 0x01, 0x67, 0x2b, 0xfe, 0xd7, 0xab, 0x76,
     0xca, 0x82, 0xc9, 0x7d, 0xfa, 0x59, 0x47, 0xf0, 0xad, 0xd4, 0xa2, 0xaf, 0x9c, 0xa4, 0x72, 0xc0,
     0xb7, 0xfd, 0x93, 0x26, 0x36, 0x3f, 0xf7, 0xcc, 0x34, 0xa5, 0xe5, 0xf1, 0x71, 0xd8, 0x31, 0x15,
     0x04, 0xc7, 0x23, 0xc3, 0x18, 0x96, 0x05, 0x9a, 0x07, 0x12, 0x80, 0xe2, 0xeb, 0x27, 0xb2, 0x75,
     0x09, 0x83, 0x2c, 0x1a, 0x1b, 0x6e, 0x5a, 0xa0, 0x52, 0x3b, 0xd6, 0xb3, 0x29, 0xe3, 0x2f, 0x84,
     0x53, 0xd1, 0x00, 0xed, 0x20, 0xfc, 0xb1, 0x5b, 0x6a, 0xcb, 0xbe, 0x39, 0x4a, 0x4c, 0x58, 0xcf,
     0xd0, 0xef, 0xaa, 0xfb, 0x43, 0x4d, 0x33, 0x85, 0x45, 0xf9, 0x02, 0x7f, 0x50, 0x3c, 0x9f, 0xa8,
     0x51, 0xa3, 0x40, 0x8f, 0x92, 0x9d, 0x38, 0xf5, 0xbc, 0xb6, 0xda, 0x21, 0x10, 0xff, 0xf3, 0xd2,
     0xcd, 0x0c, 0x13, 0xec, 0x5f, 0x97, 0x44, 0x17, 0xc4, 0xa7, 0x7e, 0x3d, 0x64, 0x5d, 0x19, 0x73,
     0x60, 0x81, 0x4f, 0xdc, 0x22, 0x2a, 0x90, 0x88, 0x46, 0xee, 0xb8, 0x14, 0xde, 0x5e, 0x0b, 0xdb,
     0xe0, 0x32, 0x3a, 0x0a, 0x49, 0x06, 0x24, 0x5c, 0xc2, 0xd3, 0xac, 0x62, 0x91, 0x95, 0xe4, 0x79,
     0xe7, 0xc8, 0x37, 0x6d, 0x8d, 0xd5, 0x4e, 0xa9, 0x6c, 0x56, 0xf4, 0xea, 0x65, 0x7a, 0xae, 0x08,
     0xba, 0x78, 0x25, 0x2e, 0x1c, 0xa6, 0xb4, 0xc6, 0xe8, 0xdd, 0x74, 0x1f, 0x4b, 0xbd, 0x8b, 0x8a,
     0x70, 0x3e, 0xb5, 0x66, 0x48, 0x03, 0xf6, 0x0e, 0x61, 0x35, 0x57, 0xb9, 0x86, 0xc1, 0x1d, 0x9e,
     0xe1, 0xf8, 0x98, 0x11, 0x69, 0xd9, 0x8e, 0x94, 0x9b, 0x1e, 0x87, 0xe9, 0xce, 0x55, 0x28, 0xdf,
     0x8c, 0xa1, 0x89, 0x0d, 0xbf, 0xe6, 0x42, 0x68, 0x41, 0x99, 0x2d, 0x0f, 0xb0, 0x54, 0xbb, 0x16]"

definition RSBOX :: "byte list" where
  "RSBOX = [
     0x52, 0x09, 0x6a, 0xd5, 0x30, 0x36, 0xa5, 0x38, 0xbf, 0x40, 0xa3, 0x9e, 0x81, 0xf3, 0xd7, 0xfb,
     0x7c, 0xe3, 0x39, 0x82, 0x9b, 0x2f, 0xff, 0x87, 0x34, 0x8e, 0x43, 0x44, 0xc4, 0xde, 0xe9, 0xcb,
     0x54, 0x7b, 0x94, 0x32, 0xa6, 0xc2, 0x23, 0x3d, 0xee, 0x4c, 0x95, 0x0b, 0x42, 0xfa, 0xc3, 0x4e,
     0x08, 0x2e, 0xa1, 0x66, 0x28, 0xd9, 0x24, 0xb2, 0x76, 0x5b, 0xa2, 0x49, 0x6d, 0x8b, 0xd1, 0x25,
     0x72, 0xf8, 0xf6, 0x64, 0x86, 0x68, 0x98, 0x16, 0xd4, 0xa4, 0x5c, 0xcc, 0x5d, 0x65, 0xb6, 0x92,
     0x6c, 0x70, 0x48, 0x50, 0xfd, 0xed, 0xb9, 0xda, 0x5e, 0x15, 0x46, 0x57, 0xa7, 0x8d, 0x9d, 0x84,
     0x90, 0xd8, 0xab, 0x00, 0x8c, 0xbc, 0xd3, 0x0a, 0xf7, 0xe4, 0x58, 0x05, 0xb8, 0xb3, 0x45, 0x06,
     0xd0, 0x2c, 0x1e, 0x8f, 0xca, 0x3f, 0x0f, 0x02, 0xc1, 0xaf, 0xbd, 0x03, 0x01, 0x13, 0x8a, 0x6b,
     0x3a, 0x91, 0x11, 0x41, 0x4f, 0x67, 0xdc, 0xea, 0x97, 0xf2, 0xcf, 0xce, 0xf0, 0xb4, 0xe6, 0x73,
     0x96, 0xac, 0x74, 0x22, 0xe7, 0xad, 0x35, 0x85, 0xe2, 0xf9, 0x37, 0xe8, 0x1c, 0x75, 0xdf, 0x6e,
     0x47, 0xf1, 0x1a, 0x71, 0x1d, 0x29, 0xc5, 0x89, 0x6f, 0xb7, 0x62, 0x0e, 0xaa, 0x18, 0xbe, 0x1b,
     0xfc, 0x56, 0x3e, 0x4b, 0xc6, 0xd2, 0x79, 0x20, 0x9a, 0xdb, 0xc0, 0xfe, 0x78, 0xcd, 0x5a, 0xf4,
     0x1f, 0xdd, 0xa8, 0x33, 0x88, 0x07, 0xc7, 0x31, 0xb1, 0x12, 0x10, 0x59, 0x27, 0x80, 0xec, 0x5f,
     0x60, 0x51, 0x7f, 0xa9, 0x19, 0xb5, 0x4a, 0x0d, 0x2d, 0xe5, 0x7a, 0x9f, 0x93, 0xc9, 0x9c, 0xef,
     0xa0, 0xe0, 0x3b, 0x4d, 0xae, 0x2a, 0xf5, 0xb0, 0xc8, 0xeb, 0xbb, 0x3c, 0x83, 0x53, 0x99, 0x61,
     0x17, 0x2b, 0x04, 0x7e, 0xba, 0x77, 0xd6, 0x26, 0xe1, 0x69, 0x14, 0x63, 0x55, 0x21, 0x0c, 0x7d]"

section \<open>The field helper\<close>

definition xtime :: "number \<Rightarrow> number" where
  "xtime x = (if x AND 0x80 \<noteq> 0 then push_bit 1 x XOR 0x1b else push_bit 1 x)"

section \<open>Key schedule\<close>

definition rotWord :: "bytes \<Rightarrow> nat \<Rightarrow> bytes" where
  "rotWord ks column =
     (let offset = column * 4;
          tmp = ks ! offset;
          ks = ks[offset := ks ! (offset + 1)];
          ks = ks[offset + 1 := ks ! (offset + 2)];
          ks = ks[offset + 2 := ks ! (offset + 3)];
          ks = ks[offset + 3 := tmp]
      in ks)"

definition subWord :: "bytes \<Rightarrow> nat \<Rightarrow> bytes" where
  "subWord ks column =
     (let offset = column * 4
      in fold (\<lambda>i ks. ks[offset + i := SBOX ! unat (ks ! (offset + i))]) [0..<4] ks)"

text \<open>One pass of the body of the loop of \<open>keyExpansion\<close>, at word index \<open>i\<close>.\<close>

definition keyExpansion_body :: "nat \<Rightarrow> bytes \<Rightarrow> nat \<Rightarrow> bytes" where
  "keyExpansion_body nk ks i =
     (let prevOffset = (i - nk) * 4;
          offset = i * 4;
          ks = ks[offset := ks ! (offset - 4)];
          ks = ks[offset + 1 := ks ! (offset - 3)];
          ks = ks[offset + 2 := ks ! (offset - 2)];
          ks = ks[offset + 3 := ks ! (offset - 1)];
          ks = (if i mod nk = 0 then
                  (let ks = rotWord ks i;
                       ks = subWord ks i
                   in ks[offset := ks ! offset XOR RCON ! (i div nk)])
                else if nk > 6 \<and> i mod nk = 4 then subWord ks i
                else ks);
          ks = ks[offset := ks ! offset XOR ks ! prevOffset];
          ks = ks[offset + 1 := ks ! (offset + 1) XOR ks ! (prevOffset + 1)];
          ks = ks[offset + 2 := ks ! (offset + 2) XOR ks ! (prevOffset + 2)];
          ks = ks[offset + 3 := ks ! (offset + 3) XOR ks ! (prevOffset + 3)]
      in ks)"

function keyExpansion_loop :: "nat \<Rightarrow> nat \<Rightarrow> bytes \<Rightarrow> nat \<Rightarrow> bytes" where
  "keyExpansion_loop nk nr ks i =
     (if i < 4 * (nr + 1) then keyExpansion_loop nk nr (keyExpansion_body nk ks i) (i + 1)
      else ks)"
  by pat_completeness auto
termination
  by (relation "measure (\<lambda>(nk, nr, ks, i). 4 * (nr + 1) - i)") auto

declare keyExpansion_loop.simps [simp del]

text \<open>
  \<open>key.length / 4\<close> is exact for the key lengths the constructor lets through.
  The key always fits into the zeroed array: \<open>16 * (nk + 7)\<close> is more than
  \<open>key.length\<close>.
\<close>

definition keyExpansion :: "bytes \<Rightarrow> bytes" where
  "keyExpansion k =
     (let nk = length k div 4;
          nr = nk + 6;
          ks = replicate (16 * (nr + 1)) 0;
          ks = set_array ks k 0
      in keyExpansion_loop nk nr ks nk)"

section \<open>Round transforms\<close>

definition addRoundKey :: "bytes \<Rightarrow> bytes \<Rightarrow> nat \<Rightarrow> bytes" where
  "addRoundKey k state round =
     fold (\<lambda>i st. st[i := st ! i XOR k ! (round * 16 + i)]) [0..<16] state"

definition subBytes :: "bytes \<Rightarrow> bytes" where
  "subBytes state = fold (\<lambda>i st. st[i := SBOX ! unat (st ! i)]) [0..<16] state"

definition invSubBytes :: "bytes \<Rightarrow> bytes" where
  "invSubBytes state = fold (\<lambda>i st. st[i := RSBOX ! unat (st ! i)]) [0..<16] state"

definition shiftRows :: "bytes \<Rightarrow> bytes" where
  "shiftRows state =
     (let t = state ! 1;
          state = state[1 := state ! 5];
          state = state[5 := state ! 9];
          state = state[9 := state ! 13];
          state = state[13 := t];
          t = state ! 10;
          state = state[10 := state ! 2];
          state = state[2 := t];
          t = state ! 14;
          state = state[14 := state ! 6];
          state = state[6 := t];
          t = state ! 15;
          state = state[15 := state ! 11];
          state = state[11 := state ! 7];
          state = state[7 := state ! 3];
          state = state[3 := t]
      in state)"

definition invShiftRows :: "bytes \<Rightarrow> bytes" where
  "invShiftRows state =
     (let t = state ! 13;
          state = state[13 := state ! 9];
          state = state[9 := state ! 5];
          state = state[5 := state ! 1];
          state = state[1 := t];
          t = state ! 10;
          state = state[10 := state ! 2];
          state = state[2 := t];
          t = state ! 14;
          state = state[14 := state ! 6];
          state = state[6 := t];
          t = state ! 3;
          state = state[3 := state ! 7];
          state = state[7 := state ! 11];
          state = state[11 := state ! 15];
          state = state[15 := t]
      in state)"

text \<open>The body of the column loop of \<open>mixColumns\<close>, at offset \<open>i\<close>.\<close>

definition mixColumns_body :: "nat \<Rightarrow> bytes \<Rightarrow> bytes" where
  "mixColumns_body i state =
     (let a = (ucast (state ! i) :: number);
          b = (ucast (state ! (i + 1)) :: number);
          c = (ucast (state ! (i + 2)) :: number);
          d = (ucast (state ! (i + 3)) :: number);
          e = a XOR b XOR c XOR d;
          state = state[i := ucast (ucast (state ! i) XOR (e XOR xtime (a XOR b)))];
          state = state[i + 1 := ucast (ucast (state ! (i + 1)) XOR (e XOR xtime (b XOR c)))];
          state = state[i + 2 := ucast (ucast (state ! (i + 2)) XOR (e XOR xtime (c XOR d)))];
          state = state[i + 3 := ucast (ucast (state ! (i + 3)) XOR (e XOR xtime (d XOR a)))]
      in state)"

definition mixColumns :: "bytes \<Rightarrow> bytes" where
  "mixColumns state = fold mixColumns_body [0, 4, 8, 12] state"

definition invMixColumns_body :: "nat \<Rightarrow> bytes \<Rightarrow> bytes" where
  "invMixColumns_body i state =
     (let a = (ucast (state ! i) :: number);
          b = (ucast (state ! (i + 1)) :: number);
          c = (ucast (state ! (i + 2)) :: number);
          d = (ucast (state ! (i + 3)) :: number);
          e = a XOR b XOR c XOR d;
          z = xtime e;
          x = e XOR xtime (xtime (z XOR a XOR c));
          y = e XOR xtime (xtime (z XOR b XOR d));
          state = state[i := ucast (ucast (state ! i) XOR (x XOR xtime (a XOR b)))];
          state = state[i + 1 := ucast (ucast (state ! (i + 1)) XOR (y XOR xtime (b XOR c)))];
          state = state[i + 2 := ucast (ucast (state ! (i + 2)) XOR (x XOR xtime (c XOR d)))];
          state = state[i + 3 := ucast (ucast (state ! (i + 3)) XOR (y XOR xtime (d XOR a)))]
      in state)"

definition invMixColumns :: "bytes \<Rightarrow> bytes" where
  "invMixColumns state = fold invMixColumns_body [0, 4, 8, 12] state"

section \<open>Block transforms\<close>

text \<open>
  \<open>this.key\<close> is the expanded key, of 176, 208 or 240 bytes on every instance the
  constructor returns, so that \<open>nr\<close> is 10, 12 or 14. \<open>data.slice()\<close> is a private
  copy, so the argument is left as it is. The loop \<open>for (i = 1; i < nr; i++)\<close> is a fold over
  \<open>[1..<nr]\<close>, the loop \<open>for (i = nr - 1; i > 0; i--)\<close> a fold over its reverse.
\<close>

definition encryptBlock :: "bytes \<Rightarrow> bytes \<Rightarrow> bytes" where
  "encryptBlock k data =
     (let nr = length k div 16 - 1;
          state = data;
          state = addRoundKey k state 0;
          state = fold (\<lambda>i st. addRoundKey k (mixColumns (shiftRows (subBytes st))) i)
                    [1..<nr] state;
          state = subBytes state;
          state = shiftRows state
      in addRoundKey k state nr)"

definition decryptBlock :: "bytes \<Rightarrow> bytes \<Rightarrow> bytes" where
  "decryptBlock k data =
     (let nr = length k div 16 - 1;
          state = data;
          state = addRoundKey k state nr;
          state = fold (\<lambda>i st. invMixColumns (addRoundKey k (invSubBytes (invShiftRows st)) i))
                    (rev [1..<nr]) state;
          state = invShiftRows state;
          state = invSubBytes state
      in addRoundKey k state 0)"

section \<open>Padding\<close>

text \<open>
  Modelled from the spec: \<open>pad\<close> of \<open>utils/padding.ts\<close>, which is not part of the
  sources at hand. "let n = blockSize - (len(data) mod blockSize); if n == 0 then
  n := blockSize; append n bytes of value n."
\<close>

definition pad :: "bytes \<Rightarrow> Padding \<Rightarrow> nat \<Rightarrow> bytes" where
  "pad data p blockSize =
     (let n = blockSize - length data mod blockSize;
          n = (if n = 0 then blockSize else n)
      in data @ replicate n (of_nat n))"

text \<open>
  Modelled from the spec: \<open>unpad\<close> of \<open>utils/padding.ts\<close>, which is not part of the
  sources at hand. "let v = last byte; fail with a padding error if v == 0,
  v > blockSize, v > len(data), or any of the last v bytes differs from v; otherwise
  return data with the trailing v bytes removed." The spec does not say what happens
  on an empty buffer, which has no last byte; the model fails there as well.
\<close>

definition unpad :: "bytes \<Rightarrow> Padding \<Rightarrow> nat \<Rightarrow> error + bytes" where
  "unpad data p blockSize =
     (if data = [] then Inl PaddingError
      else
        (let v = unat (last data)
         in if v = 0 \<or> v > blockSize \<or> v > length data
               \<or> drop (length data - v) data \<noteq> replicate v (last data)
            then Inl PaddingError
            else Inr (take (length data - v) data)))"

section \<open>The class\<close>

text \<open>
  The fields as lines 29 to 33 of the constructor leave them. \<open>toUint8Array\<close> (not
  part of the sources at hand) turns a string into bytes; the model starts from the
  bytes. \<open>options.mode && ...\<close> keeps the default when the mode is absent or the falsy
  number 0; a byte array is never falsy.
\<close>

definition this_iv :: "AESOptions option \<Rightarrow> bytes option" where
  "this_iv options = (case options of None \<Rightarrow> None | Some opt \<Rightarrow> opt_iv opt)"

definition this_mode :: "AESOptions option \<Rightarrow> Mode" where
  "this_mode options =
     (case options of None \<Rightarrow> ECB
      | Some opt \<Rightarrow> (case opt_mode opt of None \<Rightarrow> ECB | Some m \<Rightarrow> if m = 0 then ECB else m))"

definition this_padding :: "AESOptions option \<Rightarrow> Padding" where
  "this_padding options =
     (case options of None \<Rightarrow> PKCS7
      | Some opt \<Rightarrow> (case opt_padding opt of None \<Rightarrow> PKCS7 | Some p \<Rightarrow> p))"

text \<open>The constructor: the IV is looked at only in CBC mode, and before the key.\<close>

definition AES_constructor :: "bytes \<Rightarrow> AESOptions option \<Rightarrow> error + AES" where
  "AES_constructor k options =
     (if this_mode options = CBC \<and> this_iv options = None then Inl IVNotSet
      else if this_mode options = CBC \<and> length (the (this_iv options)) \<noteq> 16 then Inl IVLength
      else if length k \<notin> {16, 24, 32} then Inl KeyLength
      else Inr \<lparr>key = keyExpansion k, mode = this_mode options, iv = this_iv options,
                 padding = this_padding options\<rparr>)"

text \<open>The ECB loop of \<open>encrypt\<close>.\<close>

function ecb_encrypt_loop :: "bytes \<Rightarrow> bytes \<Rightarrow> bytes \<Rightarrow> nat \<Rightarrow> bytes" where
  "ecb_encrypt_loop k data encrypted i =
     (if i < length data then
        (let block = encryptBlock k (subarray data i (i + 16));
             encrypted = set_array encrypted block i
         in ecb_encrypt_loop k data encrypted (i + 16))
      else encrypted)"
  by pat_completeness auto
termination
  by (relation "measure (\<lambda>(k, data, encrypted, i). length data - i)") auto

declare ecb_encrypt_loop.simps [simp del]

text \<open>
  The CBC loop of \<open>encrypt\<close>. \<open>block\<close> is a view of (the padded copy of) \<open>data\<close>,
  so \<open>block[j] ^= prev[j]\<close> writes into \<open>data\<close>; \<open>prev\<close> is a local variable, which
  starts as \<open>this.iv\<close> and then names the last ciphertext block. Nothing is written
  through \<open>prev\<close>.
\<close>

definition xor_block :: "bytes \<Rightarrow> bytes \<Rightarrow> bytes" where
  "xor_block block prev = fold (\<lambda>j b. b[j := b ! j XOR prev ! j]) [0..<16] block"

function cbc_encrypt_loop :: "bytes \<Rightarrow> bytes \<Rightarrow> bytes \<Rightarrow> bytes \<Rightarrow> nat \<Rightarrow> bytes" where
  "cbc_encrypt_loop k data encrypted prev i =
     (if i < length data then
        (let block = xor_block (subarray data i (i + 16)) prev;
             data' = set_array data block i;
             enc = encryptBlock k block;
             encrypted = set_array encrypted enc i
         in cbc_encrypt_loop k data' encrypted enc (i + 16))
      else encrypted)"
  by pat_completeness auto
termination
proof -
  have len: "length (fold (\<lambda>j b. b[j := b ! j XOR prev ! j]) js b) = length b"
    for js :: "nat list" and b prev :: bytes
    by (induction js arbitrary: b) simp_all
  show ?thesis
    by (relation "measure (\<lambda>(k, data, encrypted, prev, i). length data - i)")
      (auto simp: xor_block_def subarray_def set_array_def len min_def)
qed

declare cbc_encrypt_loop.simps [simp del]

definition encrypt :: "AES \<Rightarrow> bytes \<Rightarrow> error + bytes" where
  "encrypt this data =
     (let data = pad data (padding this) 16;
          encrypted = replicate (length data) 0
      in if mode this = ECB then Inr (ecb_encrypt_loop (key this) data encrypted 0)
         else if mode this = CBC then
           Inr (cbc_encrypt_loop (key this) data encrypted (the (iv this)) 0)
         else Inl UnsupportedMode)"

function ecb_decrypt_loop :: "bytes \<Rightarrow> bytes \<Rightarrow> bytes \<Rightarrow> nat \<Rightarrow> bytes" where
  "ecb_decrypt_loop k data decrypted i =
     (if i < length data then
        (let block = decryptBlock k (subarray data i (i + 16));
             decrypted = set_array decrypted block i
         in ecb_decrypt_loop k data decrypted (i + 16))
      else decrypted)"
  by pat_completeness auto
termination
  by (relation "measure (\<lambda>(k, data, decrypted, i). length data - i)") auto

declare ecb_decrypt_loop.simps [simp del]

text \<open>
  The CBC loop of \<open>decrypt\<close>. \<open>decryptBlock\<close> works on a copy, so \<open>enc\<close> is fresh and
  the XOR writes neither into \<open>data\<close> nor into \<open>prev\<close>; \<open>prev\<close> then names the
  ciphertext block just read.
\<close>

function cbc_decrypt_loop :: "bytes \<Rightarrow> bytes \<Rightarrow> bytes \<Rightarrow> bytes \<Rightarrow> nat \<Rightarrow> bytes" where
  "cbc_decrypt_loop k data decrypted prev i =
     (if i < length data then
        (let block = subarray data i (i + 16);
             enc = decryptBlock k block;
             enc = xor_block enc prev;
             decrypted = set_array decrypted enc i
         in cbc_decrypt_loop k data decrypted block (i + 16))
      else decrypted)"
  by pat_completeness auto
termination
  by (relation "measure (\<lambda>(k, data, decrypted, prev, i). length data - i)") auto

declare cbc_decrypt_loop.simps [simp del]

definition decrypt :: "AES \<Rightarrow> bytes \<Rightarrow> error + bytes" where
  "decrypt this data =
     (if length data mod 16 \<noteq> 0 then Inl InputLength
      else
        (let decrypted = replicate (length data) 0
         in if mode this = ECB then
              unpad (ecb_decrypt_loop (key this) data decrypted 0) (padding this) 16
            else if mode this = CBC then
              unpad (cbc_decrypt_loop (key this) data decrypted (the (iv this)) 0)
                (padding this) 16
            else Inl UnsupportedMode))"

section \<open>The spec's own wording, and names for what the code computes\<close>

text \<open>
  The spec's \<open>double(x)\<close>: "shift left one bit, truncate to a byte; if the dropped
  high bit was set, XOR the result with the fixed reduction constant (0x1b)". On a
  byte, \<open>push_bit\<close> drops the high bit by itself.
\<close>

definition spec_double :: "byte \<Rightarrow> byte" where
  "spec_double x = (if bit x 7 then push_bit 1 x XOR 0x1b else push_bit 1 x)"

text \<open>
  The byte that \<open>mixColumns\<close> leaves in the first place of a column \<open>a b c d\<close>, and the
  one \<open>invMixColumns\<close> leaves there; the other places are the same with the column
  rotated.
\<close>

definition mix_byte :: "byte \<Rightarrow> byte \<Rightarrow> byte \<Rightarrow> byte \<Rightarrow> byte" where
  "mix_byte a b c d = a XOR (a XOR b XOR c XOR d) XOR spec_double (a XOR b)"

definition inv_mix_byte :: "byte \<Rightarrow> byte \<Rightarrow> byte \<Rightarrow> byte \<Rightarrow> byte" where
  "inv_mix_byte a b c d =
     (let e = a XOR b XOR c XOR d
      in a XOR (e XOR spec_double (spec_double (spec_double e XOR a XOR c)))
           XOR spec_double (a XOR b))"

text \<open>
  A call on an instance together with the instance as the call leaves it. Neither
  \<open>encrypt\<close> nor \<open>decrypt\<close> assigns to a field of \<open>this\<close>, and neither writes into an
  array that a field names: the writes go to the padded copy of the input, to the
  fresh output buffer, and to the private copies that the block transforms make.
\<close>

definition encrypt_call :: "AES \<Rightarrow> bytes \<Rightarrow> (error + bytes) \<times> AES" where
  "encrypt_call this data = (encrypt this data, this)"

definition decrypt_call :: "AES \<Rightarrow> bytes \<Rightarrow> (error + bytes) \<times> AES" where
  "decrypt_call this data = (decrypt this data, this)"

text \<open>
  Modelled from the spec: the CFB and OFB modes. The tests use classes \<open>AesCfb\<close> and
  \<open>AesOfb\<close> of a file \<open>aes.ts\<close> that is not part of the sources at hand; the class
  \<open>AES\<close> above has the modes ECB and CBC only. The spec: "CFB.encrypt: keystream :=
  encryptBlock(prev); ciphertext_i := plaintext_i XOR keystream (a final partial
  segment shorter than block size may be XORed against a truncated prefix of the
  keystream, since CFB does not require padding); prev := ciphertext_i", "CFB.decrypt:
  keystream := encryptBlock(prev); plaintext_i := ciphertext_i XOR keystream;
  prev := ciphertext_i", "OFB.encrypt/decrypt: keystream := encryptBlock(prev);
  output_i := input_i XOR keystream; prev := keystream". The register \<open>prev\<close> starts
  as the IV; the segments are the consecutive blocks of 16 bytes of the input.
\<close>

function cfb_encrypt :: "bytes \<Rightarrow> bytes \<Rightarrow> bytes \<Rightarrow> bytes" where
  "cfb_encrypt k prev data =
     (if data = [] then []
      else
        (let keystream = encryptBlock k prev;
             ciphertext = map2 (XOR) (take 16 data) keystream
         in ciphertext @ cfb_encrypt k ciphertext (drop 16 data)))"
  by pat_completeness auto
termination
  by (relation "measure (\<lambda>(k, prev, data). length data)") auto

declare cfb_encrypt.simps [simp del]

function cfb_decrypt :: "bytes \<Rightarrow> bytes \<Rightarrow> bytes \<Rightarrow> bytes" where
  "cfb_decrypt k prev data =
     (if data = [] then []
      else
        (let keystream = encryptBlock k prev;
             ciphertext = take 16 data;
             plaintext = map2 (XOR) ciphertext keystream
         in plaintext @ cfb_decrypt k ciphertext (drop 16 data)))"
  by pat_completeness auto
termination
  by (relation "measure (\<lambda>(k, prev, data). length data)") auto

declare cfb_decrypt.simps [simp del]

function ofb_crypt :: "bytes \<Rightarrow> bytes \<Rightarrow> bytes \<Rightarrow> bytes" where
  "ofb_crypt k prev data =
     (if data = [] then []
      else
        (let keystream = encryptBlock k prev;
             output = map2 (XOR) (take 16 data) keystream
         in output @ ofb_crypt k keystream (drop 16 data)))"
  by pat_completeness auto
termination
  by (relation "measure (\<lambda>(k, prev, data). length data)") auto

declare ofb_crypt.simps [simp del]

text \<open>
  What the loops of \<open>encrypt\<close> and \<open>decrypt\<close> compute, block by block: the image of
  each block of 16 bytes in ECB mode, and the two chains of CBC mode.
\<close>

function map_blocks :: "(bytes \<Rightarrow> bytes) \<Rightarrow> bytes \<Rightarrow> bytes" where
  "map_blocks f xs = (if xs = [] then [] else f (take 16 xs) @ map_blocks f (drop 16 xs))"
  by pat_completeness auto
termination
  by (relation "measure (\<lambda>(f, xs). length xs)") auto

declare map_blocks.simps [simp del]

function cbc_encrypt_chain :: "bytes \<Rightarrow> bytes \<Rightarrow> bytes \<Rightarrow> bytes" where
  "cbc_encrypt_chain k prev xs =
     (if xs = [] then []
      else
        (let enc = encryptBlock k (xor_block (take 16 xs) prev)
         in enc @ cbc_encrypt_chain k enc (drop 16 xs)))"
  by pat_completeness auto
termination
  by (relation "measure (\<lambda>(k, prev, xs). length xs)") auto

declare cbc_encrypt_chain.simps [simp del]

function cbc_decrypt_chain :: "bytes \<Rightarrow> bytes \<Rightarrow> bytes \<Rightarrow> bytes" where
  "cbc_decrypt_chain k prev xs =
     (if xs = [] then []
      else xor_block (decryptBlock k (take 16 xs)) prev
             @ cbc_decrypt_chain k (take 16 xs) (drop 16 xs))"
  by pat_completeness auto
termination
  by (relation "measure (\<lambda>(k, prev, xs). length xs)") auto

declare cbc_decrypt_chain.simps [simp del]

text \<open>Inputs of the scenarios of the spec and of the tests.\<close>

definition bytes_1_16 :: bytes where
  "bytes_1_16 = [1, 2, 3, 4, 5, 6, 7, 8, 9, 10, 11, 12, 13, 14, 15, 16]"

definition cbc_options :: "AESOptions option" where
  "cbc_options = Some \<lparr>opt_mode = Some CBC, opt_iv = Some bytes_1_16, opt_padding = None\<rparr>"

definition cbc_no_iv :: "AESOptions option" where
  "cbc_no_iv = Some \<lparr>opt_mode = Some CBC, opt_iv = None, opt_padding = None\<rparr>"

definition cbc_short_iv :: "AESOptions option" where
  "cbc_short_iv = Some \<lparr>opt_mode = Some CBC, opt_iv = Some [1, 2, 3], opt_padding = None\<rparr>"

definition ecb_instance :: AES where
  "ecb_instance = \<lparr>key = keyExpansion bytes_1_16, mode = ECB, iv = None, padding = PKCS7\<rparr>"

definition cbc_instance :: AES where
  "cbc_instance =
     \<lparr>key = keyExpansion bytes_1_16, mode = CBC, iv = Some bytes_1_16, padding = PKCS7\<rparr>"

text \<open>
  The key schedule in the spec's words: "first Nk words equal the key; for each
  subsequent word index i in [Nk, 4*(Nr+1)): w[i] = w[i-Nk] XOR T(w[i-1]), where T
  is identity normally; T = substitute-bytes, rotate-bytes, XOR a round constant
  when i % Nk == 0; T = substitute-bytes only when Nk > 6 and i % Nk == 4". The three
  steps are taken in the order in which the spec names them. Substitution works byte
  by byte and rotation moves whole bytes, so these two commute (lemma
  \<open>spec_substitute_rotate\<close> below), and \<open>spec_T\<close> is SubWord(RotWord(w)) XOR Rcon of
  Rijndael; the round constant is the word \<open>RCON[i / Nk], 0, 0, 0\<close>. \<open>word_at w i\<close> is
  the \<open>i\<close>-th word of four bytes of \<open>w\<close>.
\<close>

definition word_at :: "bytes \<Rightarrow> nat \<Rightarrow> bytes" where
  "word_at w i = [w ! (4 * i), w ! (4 * i + 1), w ! (4 * i + 2), w ! (4 * i + 3)]"

definition spec_rotate :: "bytes \<Rightarrow> bytes" where
  "spec_rotate w = [w ! 1, w ! 2, w ! 3, w ! 0]"

definition spec_substitute :: "bytes \<Rightarrow> bytes" where
  "spec_substitute w = map (\<lambda>b. SBOX ! unat b) w"

definition spec_xor :: "bytes \<Rightarrow> bytes \<Rightarrow> bytes" where
  "spec_xor a b = map2 (XOR) a b"

definition spec_T :: "nat \<Rightarrow> nat \<Rightarrow> bytes \<Rightarrow> bytes" where
  "spec_T nk i w =
     (if i mod nk = 0 then spec_xor (spec_rotate (spec_substitute w)) [RCON ! (i div nk), 0, 0, 0]
      else if nk > 6 \<and> i mod nk = 4 then spec_substitute w
      else w)"

text \<open>The expanded key of the key \<open>1..16\<close>.\<close>

definition K128 :: bytes where
  "K128 = [1, 2, 3, 4, 5, 6, 7, 8, 9, 10, 11, 12, 13, 14, 15, 16, 171, 116, 201, 211,
  174, 114, 206, 219, 167, 120, 197, 215, 170, 118, 202, 199, 145, 0, 15,
  127, 63, 114, 193, 164, 152, 10, 4, 115, 50, 124, 206, 180, 133, 139, 130,
  92, 186, 249, 67, 248, 34, 243, 71, 139, 16, 143, 137, 63, 254, 44, 247,
  150, 68, 213, 180, 110, 102, 38, 243, 229, 118, 169, 122, 218, 61, 246,
  160, 174, 121, 35, 20, 192, 31, 5, 231, 37, 105, 172, 157, 255, 140, 168,
  182, 87, 245, 139, 162, 151, 234, 142, 69, 178, 131, 34, 216, 77, 95, 201,
  85, 187, 170, 66, 247, 44, 64, 204, 178, 158, 195, 238, 106, 211, 247,
  203, 51, 149, 93, 137, 196, 185, 29, 69, 118, 39, 222, 171, 28, 244, 142,
  87, 140, 136, 211, 222, 72, 49, 206, 155, 62, 22, 16, 48, 34, 226, 188,
  196, 20, 66, 111, 26, 92, 115, 161, 129, 98, 101, 177, 177, 64, 135]"

section \<open>Bytes and numbers\<close>

lemma high_bit_test: "(x AND 0x80 \<noteq> 0) = bit (x :: number) 7"
proof -
  have "(0x80 :: number) = 2 ^ 7"
    by simp
  then show ?thesis
    by (simp only: and_exp_eq_0_iff_not_bit) simp
qed

lemma bit7_widen: "bit (ucast (x :: byte) :: number) 7 = bit x 7"
  by (simp add: bit_simps)

lemma bit7_narrow: "bit (ucast (x :: number) :: byte) 7 = bit x 7"
  by (simp add: bit_simps)

lemma narrow_xor: "(ucast (x XOR y :: number) :: byte) = ucast x XOR ucast y"
  by (rule bit_eqI) (simp add: bit_simps)

lemma narrow_widen: "(ucast (ucast (x :: byte) :: number) :: byte) = x"
  by (rule bit_eqI) (auto simp add: bit_simps dest: bit_imp_le_length)

lemma narrow_push: "(ucast (push_bit n x :: number) :: byte) = push_bit n (ucast x)"
  by (rule bit_eqI) (auto simp add: bit_simps)

lemma narrow_1b: "(ucast (0x1b :: number) :: byte) = 0x1b"
  by simp

lemma xtime_of_byte:
  "xtime (ucast (x :: byte)) =
     (if bit x 7 then push_bit 1 (ucast x) XOR 0x1b else push_bit 1 (ucast x))"
  unfolding xtime_def high_bit_test bit7_widen ..

lemma narrow_xtime: "(ucast (xtime x) :: byte) = spec_double (ucast x)"
  unfolding xtime_def spec_double_def high_bit_test bit7_narrow
  by (simp only: narrow_xor narrow_push narrow_1b if_distrib [of ucast])

lemma take_bit_push_byte:
  "m \<le> 1 \<Longrightarrow> take_bit 9 (push_bit m (ucast (x :: byte)) :: number) = push_bit m (ucast x)"
  by (rule bit_eqI) (auto simp add: bit_simps dest: bit_imp_le_length)

lemma xtime_of_byte_bound: "unat (xtime (ucast (x :: byte))) < 512"
proof -
  have "take_bit 9 (27 :: number) = 27"
    by simp
  then have "take_bit 9 (xtime (ucast x)) = xtime (ucast x)"
    unfolding xtime_of_byte
    by (simp only: take_bit_xor take_bit_push_byte [of 1] if_distrib [of "take_bit 9"])
  then have "unat (xtime (ucast x)) = take_bit 9 (unat (xtime (ucast x)))"
    by (simp flip: unsigned_take_bit_eq)
  also have "\<dots> < 2 ^ 9"
    by (rule take_bit_nat_less_exp)
  finally show ?thesis
    by simp
qed

lemma spec_double_xor: "spec_double (a XOR b) = spec_double a XOR spec_double b"
  by (simp add: spec_double_def bit_simps push_bit_xor ac_simps)

lemma spec_double_0: "spec_double 0 = 0"
  by (simp add: spec_double_def)

text \<open>
  C4. The claim: on every byte, \<open>xtime\<close> is the shift by one bit, truncated to a byte
  and XORed with 0x1b when the high bit was set, so that its result is a byte. The
  code does not truncate: on the byte 0x80 it returns 0x11b = 283.
\<close>

theorem xtime_not_truncated:
  "xtime (ucast (0x80 :: byte)) \<noteq> ucast (spec_double 0x80)
   \<and> \<not> unat (xtime (ucast (0x80 :: byte))) \<le> 255"
  by (simp add: xtime_def spec_double_def)

text \<open>
  C4, as the code has it: on every byte \<open>x\<close>, \<open>xtime\<close> returns \<open>x\<close> shifted left by one
  bit and not truncated, XORed with 0x1b exactly when bit 7 of \<open>x\<close> is set; the result
  is below 512, and its low eight bits (what a store into a byte array keeps) are
  the spec's \<open>double\<close> of \<open>x\<close>.
\<close>

theorem xtime_low_byte:
  "xtime (ucast (x :: byte)) =
     (if bit x 7 then push_bit 1 (ucast x) XOR 0x1b else push_bit 1 (ucast x))
   \<and> unat (xtime (ucast x)) < 512
   \<and> (ucast (xtime (ucast x)) :: byte) = spec_double x"
  using xtime_of_byte [of x] xtime_of_byte_bound [of x] narrow_xtime [of "ucast x"]
  by (simp only: narrow_widen)

section \<open>The round transforms on a block of 16 bytes\<close>

lemma list_update_Cons_numeral [simp]:
  "(x # xs)[numeral v := y] = x # xs[pred_numeral v := y]"
  by (simp add: numeral_eq_Suc)

lemma upt_16: "[0..<16] = [0, 1, 2, 3, 4, 5, 6, 7, 8, 9, 10, 11, 12, 13, 14, 15]"
  by (simp add: upt_rec)

lemma upt_4: "[0..<4] = [0, 1, 2, 3]"
  by (simp add: upt_rec)

lemma block_cases:
  assumes "length (s :: 'a list) = 16"
  obtains s0 s1 s2 s3 s4 s5 s6 s7 s8 s9 s10 s11 s12 s13 s14 s15
  where "s = [s0, s1, s2, s3, s4, s5, s6, s7, s8, s9, s10, s11, s12, s13, s14, s15]"
  using assms by (auto simp: numeral_eq_Suc length_Suc_conv)

lemma mixColumns_block:
  "mixColumns [s0, s1, s2, s3, s4, s5, s6, s7, s8, s9, s10, s11, s12, s13, s14, s15] =
     [mix_byte s0 s1 s2 s3, mix_byte s1 s2 s3 s0, mix_byte s2 s3 s0 s1, mix_byte s3 s0 s1 s2,
      mix_byte s4 s5 s6 s7, mix_byte s5 s6 s7 s4, mix_byte s6 s7 s4 s5, mix_byte s7 s4 s5 s6,
      mix_byte s8 s9 s10 s11, mix_byte s9 s10 s11 s8, mix_byte s10 s11 s8 s9,
      mix_byte s11 s8 s9 s10,
      mix_byte s12 s13 s14 s15, mix_byte s13 s14 s15 s12, mix_byte s14 s15 s12 s13,
      mix_byte s15 s12 s13 s14]"
  by (simp add: mixColumns_def mixColumns_body_def Let_def narrow_xor narrow_widen
      narrow_xtime mix_byte_def ac_simps)

lemma invMixColumns_block:
  "invMixColumns [s0, s1, s2, s3, s4, s5, s6, s7, s8, s9, s10, s11, s12, s13, s14, s15] =
     [inv_mix_byte s0 s1 s2 s3, inv_mix_byte s1 s2 s3 s0, inv_mix_byte s2 s3 s0 s1,
      inv_mix_byte s3 s0 s1 s2,
      inv_mix_byte s4 s5 s6 s7, inv_mix_byte s5 s6 s7 s4, inv_mix_byte s6 s7 s4 s5,
      inv_mix_byte s7 s4 s5 s6,
      inv_mix_byte s8 s9 s10 s11, inv_mix_byte s9 s10 s11 s8, inv_mix_byte s10 s11 s8 s9,
      inv_mix_byte s11 s8 s9 s10,
      inv_mix_byte s12 s13 s14 s15, inv_mix_byte s13 s14 s15 s12, inv_mix_byte s14 s15 s12 s13,
      inv_mix_byte s15 s12 s13 s14]"
  by (simp add: invMixColumns_def invMixColumns_body_def Let_def narrow_xor narrow_widen
      narrow_xtime inv_mix_byte_def ac_simps)

lemma inv_mix_mix:
  "inv_mix_byte (mix_byte a b c d) (mix_byte b c d a) (mix_byte c d a b) (mix_byte d a b c) = a"
  by (simp add: inv_mix_byte_def mix_byte_def Let_def spec_double_xor spec_double_0 ac_simps)

lemma mix_inv_mix:
  "mix_byte (inv_mix_byte a b c d) (inv_mix_byte b c d a) (inv_mix_byte c d a b)
     (inv_mix_byte d a b c) = a"
  by (simp add: inv_mix_byte_def mix_byte_def Let_def spec_double_xor spec_double_0 ac_simps)

lemma invMixColumns_mixColumns:
  assumes "length state = 16"
  shows "invMixColumns (mixColumns state) = state"
proof -
  from assms obtain s0 s1 s2 s3 s4 s5 s6 s7 s8 s9 s10 s11 s12 s13 s14 s15
    where "state = [s0, s1, s2, s3, s4, s5, s6, s7, s8, s9, s10, s11, s12, s13, s14, s15]"
    by (rule block_cases)
  then show ?thesis
    by (simp only: mixColumns_block invMixColumns_block inv_mix_mix)
qed

lemma mixColumns_invMixColumns:
  assumes "length state = 16"
  shows "mixColumns (invMixColumns state) = state"
proof -
  from assms obtain s0 s1 s2 s3 s4 s5 s6 s7 s8 s9 s10 s11 s12 s13 s14 s15
    where "state = [s0, s1, s2, s3, s4, s5, s6, s7, s8, s9, s10, s11, s12, s13, s14, s15]"
    by (rule block_cases)
  then show ?thesis
    by (simp only: mixColumns_block invMixColumns_block mix_inv_mix)
qed

text \<open>
  C5. On every state of 16 bytes, whatever its four columns hold, \<open>invMixColumns\<close>
  undoes \<open>mixColumns\<close> and \<open>mixColumns\<close> undoes \<open>invMixColumns\<close>.
\<close>

theorem mixColumns_round_trip:
  "length state = 16 \<Longrightarrow>
     invMixColumns (mixColumns state) = state \<and> mixColumns (invMixColumns state) = state"
  by (simp add: invMixColumns_mixColumns mixColumns_invMixColumns)

theorem mixColumns_round_trip_witness:
  "length [0xdb, 0x13, 0x53, 0x45, 0xf2, 0x0a, 0x22, 0x5c, 1, 1, 1, 1, 0xc6, 0xc6, 0xc6, 0xc6 :: byte] = 16
   \<and> invMixColumns (mixColumns
         [0xdb, 0x13, 0x53, 0x45, 0xf2, 0x0a, 0x22, 0x5c, 1, 1, 1, 1, 0xc6, 0xc6, 0xc6, 0xc6])
       = [0xdb, 0x13, 0x53, 0x45, 0xf2, 0x0a, 0x22, 0x5c, 1, 1, 1, 1, 0xc6, 0xc6, 0xc6, 0xc6]
   \<and> mixColumns (invMixColumns
         [0xdb, 0x13, 0x53, 0x45, 0xf2, 0x0a, 0x22, 0x5c, 1, 1, 1, 1, 0xc6, 0xc6, 0xc6, 0xc6])
       = [0xdb, 0x13, 0x53, 0x45, 0xf2, 0x0a, 0x22, 0x5c, 1, 1, 1, 1, 0xc6, 0xc6, 0xc6, 0xc6]"
  using mixColumns_round_trip
    [of "[0xdb, 0x13, 0x53, 0x45, 0xf2, 0x0a, 0x22, 0x5c, 1, 1, 1, 1, 0xc6, 0xc6, 0xc6, 0xc6]"]
  by simp

section \<open>Substitution, row shifts and round keys\<close>

lemma sbox_table_inverse: "list_all (\<lambda>i. RSBOX ! unat (SBOX ! i) = of_nat i) [0..<256]"
  by code_simp

lemma RSBOX_SBOX: "RSBOX ! unat (SBOX ! unat (b :: byte)) = b"
proof -
  have "unat b < 256"
    using unsigned_less [of b] by simp
  with sbox_table_inverse have "RSBOX ! unat (SBOX ! unat b) = of_nat (unat b)"
    by (simp add: list_all_iff)
  then show ?thesis
    by simp
qed

lemma subBytes_block:
  "subBytes [s0, s1, s2, s3, s4, s5, s6, s7, s8, s9, s10, s11, s12, s13, s14, s15] =
     map (\<lambda>b. SBOX ! unat b) [s0, s1, s2, s3, s4, s5, s6, s7, s8, s9, s10, s11, s12, s13, s14, s15]"
  by (simp add: subBytes_def upt_16)

lemma invSubBytes_block:
  "invSubBytes [s0, s1, s2, s3, s4, s5, s6, s7, s8, s9, s10, s11, s12, s13, s14, s15] =
     map (\<lambda>b. RSBOX ! unat b) [s0, s1, s2, s3, s4, s5, s6, s7, s8, s9, s10, s11, s12, s13, s14, s15]"
  by (simp add: invSubBytes_def upt_16)

lemma shiftRows_block:
  "shiftRows [s0, s1, s2, s3, s4, s5, s6, s7, s8, s9, s10, s11, s12, s13, s14, s15] =
     [s0, s5, s10, s15, s4, s9, s14, s3, s8, s13, s2, s7, s12, s1, s6, s11]"
  by (simp add: shiftRows_def)

lemma invShiftRows_block:
  "invShiftRows [s0, s1, s2, s3, s4, s5, s6, s7, s8, s9, s10, s11, s12, s13, s14, s15] =
     [s0, s13, s10, s7, s4, s1, s14, s11, s8, s5, s2, s15, s12, s9, s6, s3]"
  by (simp add: invShiftRows_def)

lemma addRoundKey_block:
  "addRoundKey k [s0, s1, s2, s3, s4, s5, s6, s7, s8, s9, s10, s11, s12, s13, s14, s15] r =
     [s0 XOR k ! (r * 16), s1 XOR k ! (r * 16 + 1), s2 XOR k ! (r * 16 + 2),
      s3 XOR k ! (r * 16 + 3), s4 XOR k ! (r * 16 + 4), s5 XOR k ! (r * 16 + 5),
      s6 XOR k ! (r * 16 + 6), s7 XOR k ! (r * 16 + 7), s8 XOR k ! (r * 16 + 8),
      s9 XOR k ! (r * 16 + 9), s10 XOR k ! (r * 16 + 10), s11 XOR k ! (r * 16 + 11),
      s12 XOR k ! (r * 16 + 12), s13 XOR k ! (r * 16 + 13), s14 XOR k ! (r * 16 + 14),
      s15 XOR k ! (r * 16 + 15)]"
  by (simp add: addRoundKey_def upt_16)

lemma length_fold_update:
  "length (fold (\<lambda>i st. st[g i := f i st]) js st) = length st"
  by (induction js arbitrary: st) simp_all

lemma length_addRoundKey [simp]: "length (addRoundKey k st r) = length st"
  by (simp add: addRoundKey_def length_fold_update)

lemma length_subBytes [simp]: "length (subBytes st) = length st"
  by (simp add: subBytes_def length_fold_update)

lemma length_invSubBytes [simp]: "length (invSubBytes st) = length st"
  by (simp add: invSubBytes_def length_fold_update)

lemma length_shiftRows [simp]: "length (shiftRows st) = length st"
  by (simp add: shiftRows_def Let_def)

lemma length_invShiftRows [simp]: "length (invShiftRows st) = length st"
  by (simp add: invShiftRows_def Let_def)

lemma length_mixColumns [simp]: "length (mixColumns st) = length st"
  by (simp add: mixColumns_def mixColumns_body_def Let_def)

lemma length_invMixColumns [simp]: "length (invMixColumns st) = length st"
  by (simp add: invMixColumns_def invMixColumns_body_def Let_def)

lemma addRoundKey_twice:
  assumes "length st = 16"
  shows "addRoundKey k (addRoundKey k st r) r = st"
proof -
  from assms obtain s0 s1 s2 s3 s4 s5 s6 s7 s8 s9 s10 s11 s12 s13 s14 s15
    where "st = [s0, s1, s2, s3, s4, s5, s6, s7, s8, s9, s10, s11, s12, s13, s14, s15]"
    by (rule block_cases)
  then show ?thesis
    by (simp add: addRoundKey_block bit.xor_left_self ac_simps)
qed

lemma unsub_unshift:
  assumes "length st = 16"
  shows "invSubBytes (invShiftRows (shiftRows (subBytes st))) = st"
proof -
  from assms obtain s0 s1 s2 s3 s4 s5 s6 s7 s8 s9 s10 s11 s12 s13 s14 s15
    where "st = [s0, s1, s2, s3, s4, s5, s6, s7, s8, s9, s10, s11, s12, s13, s14, s15]"
    by (rule block_cases)
  then show ?thesis
    by (simp add: subBytes_block shiftRows_block invShiftRows_block invSubBytes_block RSBOX_SBOX)
qed

section \<open>One block\<close>

lemma rounds_undone:
  "length st = 16 \<Longrightarrow>
   fold (\<lambda>i st. invMixColumns (addRoundKey k (invSubBytes (invShiftRows st)) i)) (rev js)
     (shiftRows (subBytes
        (fold (\<lambda>i st. addRoundKey k (mixColumns (shiftRows (subBytes st))) i) js st)))
   = shiftRows (subBytes st)"
proof (induction js arbitrary: st)
  case Nil
  then show ?case by simp
next
  case (Cons j js)
  let ?st = "addRoundKey k (mixColumns (shiftRows (subBytes st))) j"
  have "length ?st = 16"
    using Cons.prems by simp
  then show ?case
    using Cons.prems
    by (simp add: Cons.IH unsub_unshift addRoundKey_twice invMixColumns_mixColumns)
qed

lemma length_fold_rounds:
  "length (fold (\<lambda>i st. addRoundKey k (mixColumns (shiftRows (subBytes st))) i) js st)
     = length st"
  by (induction js arbitrary: st) simp_all

lemma length_encryptBlock [simp]: "length (encryptBlock k data) = length data"
  by (simp add: encryptBlock_def Let_def length_fold_rounds)

lemma length_fold_inv_rounds:
  "length (fold (\<lambda>i st. invMixColumns (addRoundKey k (invSubBytes (invShiftRows st)) i)) js st)
     = length st"
  by (induction js arbitrary: st) simp_all

lemma length_decryptBlock [simp]: "length (decryptBlock k data) = length data"
  by (simp add: decryptBlock_def Let_def length_fold_inv_rounds)

lemma decryptBlock_encryptBlock:
  assumes "length data = 16"
  shows "decryptBlock k (encryptBlock k data) = data"
proof -
  have "length (addRoundKey k data 0) = 16"
    using assms by simp
  then show ?thesis
    using assms
    by (simp add: decryptBlock_def encryptBlock_def Let_def addRoundKey_twice rounds_undone
        length_fold_rounds unsub_unshift)
qed

section \<open>The loops of the modes\<close>

lemma length_xor_block [simp]: "length (xor_block b prev) = length b"
  by (simp add: xor_block_def length_fold_update)

lemma xor_block_twice:
  assumes "length b = 16"
  shows "xor_block (xor_block b prev) prev = b"
proof -
  from assms obtain s0 s1 s2 s3 s4 s5 s6 s7 s8 s9 s10 s11 s12 s13 s14 s15
    where "b = [s0, s1, s2, s3, s4, s5, s6, s7, s8, s9, s10, s11, s12, s13, s14, s15]"
    by (rule block_cases)
  then show ?thesis
    by (simp add: xor_block_def upt_16 bit.xor_left_self ac_simps)
qed

lemma block_step:
  assumes "16 dvd length data" "16 dvd i" "i < length data"
  shows "i + 16 \<le> length data"
  using assms by (auto simp: dvd_def)

lemma length_block:
  assumes "16 dvd length data" "16 dvd i" "i < length data"
  shows "length (subarray data i (i + 16)) = 16"
  using block_step [OF assms] by (simp add: subarray_def)

lemma ecb_encrypt_loop_blocks:
  "\<lbrakk>16 dvd length data; 16 dvd i; i \<le> length data; length encrypted = length data\<rbrakk> \<Longrightarrow>
   ecb_encrypt_loop k data encrypted i
     = take i encrypted @ map_blocks (encryptBlock k) (drop i data)"
proof (induction k data encrypted i rule: ecb_encrypt_loop.induct)
  case (1 k data encrypted i)
  show ?case
  proof (cases "i < length data")
    case False
    then have "ecb_encrypt_loop k data encrypted i = encrypted"
      by (subst ecb_encrypt_loop.simps) simp
    with False "1.prems" show ?thesis
      by (simp add: map_blocks.simps [of _ "[]"])
  next
    case True
    let ?block = "encryptBlock k (subarray data i (i + 16))"
    let ?enc = "set_array encrypted ?block i"
    have step: "i + 16 \<le> length data"
      using "1.prems" True by (simp add: block_step)
    have len: "length ?block = 16"
      using "1.prems" True by (simp add: length_block)
    have len': "length ?enc = length data"
      using step len "1.prems" by (simp add: set_array_def)
    have "ecb_encrypt_loop k data encrypted i = ecb_encrypt_loop k data ?enc (i + 16)"
      using True by (subst ecb_encrypt_loop.simps) (simp add: Let_def)
    also have "\<dots> = take (i + 16) ?enc @ map_blocks (encryptBlock k) (drop (i + 16) data)"
      using "1.prems" True step len'
      by (intro "1.IH" [OF True refl refl]) simp_all
    also have "take (i + 16) ?enc = take i encrypted @ ?block"
      using step len "1.prems" by (simp add: set_array_def)
    also have "(take i encrypted @ ?block) @ map_blocks (encryptBlock k) (drop (i + 16) data)
        = take i encrypted @ map_blocks (encryptBlock k) (drop i data)"
      using True
      by (simp add: map_blocks.simps [of _ "drop i data"] subarray_def add.commute)
    finally show ?thesis .
  qed
qed

lemma ecb_decrypt_loop_blocks:
  "\<lbrakk>16 dvd length data; 16 dvd i; i \<le> length data; length decrypted = length data\<rbrakk> \<Longrightarrow>
   ecb_decrypt_loop k data decrypted i
     = take i decrypted @ map_blocks (decryptBlock k) (drop i data)"
proof (induction k data decrypted i rule: ecb_decrypt_loop.induct)
  case (1 k data decrypted i)
  show ?case
  proof (cases "i < length data")
    case False
    then have "ecb_decrypt_loop k data decrypted i = decrypted"
      by (subst ecb_decrypt_loop.simps) simp
    with False "1.prems" show ?thesis
      by (simp add: map_blocks.simps [of _ "[]"])
  next
    case True
    let ?block = "decryptBlock k (subarray data i (i + 16))"
    let ?dec = "set_array decrypted ?block i"
    have step: "i + 16 \<le> length data"
      using "1.prems" True by (simp add: block_step)
    have len: "length ?block = 16"
      using "1.prems" True by (simp add: length_block)
    have len': "length ?dec = length data"
      using step len "1.prems" by (simp add: set_array_def)
    have "ecb_decrypt_loop k data decrypted i = ecb_decrypt_loop k data ?dec (i + 16)"
      using True by (subst ecb_decrypt_loop.simps) (simp add: Let_def)
    also have "\<dots> = take (i + 16) ?dec @ map_blocks (decryptBlock k) (drop (i + 16) data)"
      using "1.prems" True step len'
      by (intro "1.IH" [OF True refl refl]) simp_all
    also have "take (i + 16) ?dec = take i decrypted @ ?block"
      using step len "1.prems" by (simp add: set_array_def)
    also have "(take i decrypted @ ?block) @ map_blocks (decryptBlock k) (drop (i + 16) data)
        = take i decrypted @ map_blocks (decryptBlock k) (drop i data)"
      using True
      by (simp add: map_blocks.simps [of _ "drop i data"] subarray_def add.commute)
    finally show ?thesis .
  qed
qed

lemma cbc_encrypt_loop_chain:
  "\<lbrakk>16 dvd length data; 16 dvd i; i \<le> length data; length encrypted = length data\<rbrakk> \<Longrightarrow>
   cbc_encrypt_loop k data encrypted prev i
     = take i encrypted @ cbc_encrypt_chain k prev (drop i data)"
proof (induction k data encrypted prev i rule: cbc_encrypt_loop.induct)
  case (1 k data encrypted prev i)
  show ?case
  proof (cases "i < length data")
    case False
    then have "cbc_encrypt_loop k data encrypted prev i = encrypted"
      by (subst cbc_encrypt_loop.simps) simp
    with False "1.prems" show ?thesis
      by (simp add: cbc_encrypt_chain.simps [of _ _ "[]"])
  next
    case True
    let ?block = "xor_block (subarray data i (i + 16)) prev"
    let ?data = "set_array data ?block i"
    let ?enc = "encryptBlock k ?block"
    let ?encrypted = "set_array encrypted ?enc i"
    have step: "i + 16 \<le> length data"
      using "1.prems" True by (simp add: block_step)
    have len: "length ?block = 16" "length ?enc = 16"
      using "1.prems" True by (simp_all add: length_block)
    have len': "length ?encrypted = length data" "length ?data = length data"
      using step len "1.prems" by (simp_all add: set_array_def)
    have rest: "drop (i + 16) ?data = drop (i + 16) data"
      using step len by (simp add: set_array_def)
    have "cbc_encrypt_loop k data encrypted prev i
        = cbc_encrypt_loop k ?data ?encrypted ?enc (i + 16)"
      using True by (subst cbc_encrypt_loop.simps) (simp add: Let_def)
    also have "\<dots> = take (i + 16) ?encrypted @ cbc_encrypt_chain k ?enc (drop (i + 16) ?data)"
      using "1.prems" True step len'
      by (intro "1.IH" [OF True refl refl refl refl]) simp_all
    also have "drop (i + 16) ?data = drop (i + 16) data"
      by (rule rest)
    also have "take (i + 16) ?encrypted = take i encrypted @ ?enc"
      using step len "1.prems" by (simp add: set_array_def)
    also have "(take i encrypted @ ?enc) @ cbc_encrypt_chain k ?enc (drop (i + 16) data)
        = take i encrypted @ cbc_encrypt_chain k prev (drop i data)"
      using True
      by (simp add: cbc_encrypt_chain.simps [of _ prev "drop i data"] subarray_def
          add.commute Let_def)
    finally show ?thesis .
  qed
qed

lemma cbc_decrypt_loop_chain:
  "\<lbrakk>16 dvd length data; 16 dvd i; i \<le> length data; length decrypted = length data\<rbrakk> \<Longrightarrow>
   cbc_decrypt_loop k data decrypted prev i
     = take i decrypted @ cbc_decrypt_chain k prev (drop i data)"
proof (induction k data decrypted prev i rule: cbc_decrypt_loop.induct)
  case (1 k data decrypted prev i)
  show ?case
  proof (cases "i < length data")
    case False
    then have "cbc_decrypt_loop k data decrypted prev i = decrypted"
      by (subst cbc_decrypt_loop.simps) simp
    with False "1.prems" show ?thesis
      by (simp add: cbc_decrypt_chain.simps [of _ _ "[]"])
  next
    case True
    let ?block = "subarray data i (i + 16)"
    let ?enc = "xor_block (decryptBlock k ?block) prev"
    let ?decrypted = "set_array decrypted ?enc i"
    have step: "i + 16 \<le> length data"
      using "1.prems" True by (simp add: block_step)
    have len: "length ?enc = 16"
      using "1.prems" True by (simp add: length_block)
    have len': "length ?decrypted = length data"
      using step len "1.prems" by (simp add: set_array_def)
    have "cbc_decrypt_loop k data decrypted prev i
        = cbc_decrypt_loop k data ?decrypted ?block (i + 16)"
      using True by (subst cbc_decrypt_loop.simps) (simp add: Let_def)
    also have "\<dots> = take (i + 16) ?decrypted @ cbc_decrypt_chain k ?block (drop (i + 16) data)"
      using "1.prems" True step len'
      by (intro "1.IH" [OF True refl refl refl]) simp_all
    also have "take (i + 16) ?decrypted = take i decrypted @ ?enc"
      using step len "1.prems" by (simp add: set_array_def)
    also have "(take i decrypted @ ?enc) @ cbc_decrypt_chain k ?block (drop (i + 16) data)
        = take i decrypted @ cbc_decrypt_chain k prev (drop i data)"
      using True
      by (simp add: cbc_decrypt_chain.simps [of _ prev "drop i data"] subarray_def add.commute)
    finally show ?thesis .
  qed
qed

lemma length_map_blocks_encrypt:
  "length (map_blocks (encryptBlock k) xs) = length xs"
proof (induction "encryptBlock k" xs rule: map_blocks.induct)
  case (1 xs)
  then show ?case
    by (subst map_blocks.simps) (auto simp: min_def)
qed

lemma map_blocks_round_trip:
  "16 dvd length xs \<Longrightarrow> map_blocks (decryptBlock k) (map_blocks (encryptBlock k) xs) = xs"
proof (induction "encryptBlock k" xs rule: map_blocks.induct)
  case (1 xs)
  show ?case
  proof (cases "xs = []")
    case True
    then show ?thesis
      by (simp add: map_blocks.simps [of _ "[]"])
  next
    case False
    with "1.prems" have ge: "16 \<le> length xs"
      by (simp add: dvd_imp_le)
    then have dvd: "16 dvd length (drop 16 xs)"
      using "1.prems" by (simp add: dvd_diff_nat)
    have len: "length (encryptBlock k (take 16 xs)) = 16"
      using ge by simp
    have ne: "encryptBlock k (take 16 xs) \<noteq> []"
      using len by (metis list.size(3) zero_neq_numeral)
    have "map_blocks (encryptBlock k) xs
        = encryptBlock k (take 16 xs) @ map_blocks (encryptBlock k) (drop 16 xs)"
      using False by (subst map_blocks.simps) simp
    then have "map_blocks (decryptBlock k) (map_blocks (encryptBlock k) xs)
        = decryptBlock k (encryptBlock k (take 16 xs))
          @ map_blocks (decryptBlock k) (map_blocks (encryptBlock k) (drop 16 xs))"
      using len ne by (subst map_blocks.simps) simp
    then show ?thesis
      using "1.hyps" [OF False dvd] ge by (simp add: decryptBlock_encryptBlock)
  qed
qed

lemma length_cbc_encrypt_chain:
  "length (cbc_encrypt_chain k prev xs) = length xs"
proof (induction k prev xs rule: cbc_encrypt_chain.induct)
  case (1 k prev xs)
  then show ?case
    by (subst cbc_encrypt_chain.simps) (auto simp: min_def Let_def)
qed

lemma cbc_chain_round_trip:
  "16 dvd length xs \<Longrightarrow> cbc_decrypt_chain k prev (cbc_encrypt_chain k prev xs) = xs"
proof (induction k prev xs rule: cbc_encrypt_chain.induct)
  case (1 k prev xs)
  show ?case
  proof (cases "xs = []")
    case True
    then show ?thesis
      by (simp add: cbc_encrypt_chain.simps [of _ _ "[]"] cbc_decrypt_chain.simps [of _ _ "[]"])
  next
    case False
    let ?enc = "encryptBlock k (xor_block (take 16 xs) prev)"
    from False "1.prems" have ge: "16 \<le> length xs"
      by (simp add: dvd_imp_le)
    then have dvd: "16 dvd length (drop 16 xs)"
      using "1.prems" by (simp add: dvd_diff_nat)
    have len: "length ?enc = 16" "length (xor_block (take 16 xs) prev) = 16"
      using ge by simp_all
    have ne: "?enc \<noteq> []"
      using len(1) by (metis list.size(3) zero_neq_numeral)
    have "cbc_encrypt_chain k prev xs = ?enc @ cbc_encrypt_chain k ?enc (drop 16 xs)"
      using False by (subst cbc_encrypt_chain.simps) (simp add: Let_def)
    then have "cbc_decrypt_chain k prev (cbc_encrypt_chain k prev xs)
        = xor_block (decryptBlock k ?enc) prev
          @ cbc_decrypt_chain k ?enc (cbc_encrypt_chain k ?enc (drop 16 xs))"
      using len ne by (subst cbc_decrypt_chain.simps) simp
    then show ?thesis
      using "1.IH" [OF False refl dvd] ge len
      by (simp add: decryptBlock_encryptBlock xor_block_twice)
  qed
qed

section \<open>Padding and whole messages\<close>

lemma pad_16:
  "pad data p 16 = data @ replicate (16 - length data mod 16) (of_nat (16 - length data mod 16))"
  by (simp add: pad_def Let_def)

lemma length_pad_16: "16 dvd length (pad data p 16)"
proof -
  have "length data mod 16 < 16"
    by simp
  then have "length (pad data p 16) = 16 * (length data div 16) + 16"
    unfolding pad_16 length_append length_replicate by presburger
  then show ?thesis
    by simp
qed

lemma unat_small_byte: "n \<le> 16 \<Longrightarrow> unat (of_nat n :: byte) = n"
  by (simp add: unat_of_nat)

lemma unpad_pad_16: "unpad (pad data p 16) p 16 = Inr data"
proof -
  let ?n = "16 - length data mod 16"
  have n: "0 < ?n" "?n \<le> 16"
    by simp_all
  have v: "unat (of_nat ?n :: byte) = ?n"
    by (rule unat_small_byte) simp
  have last: "last (pad data p 16) = of_nat ?n"
    unfolding pad_16 using n by simp
  have ne: "pad data p 16 \<noteq> []"
    unfolding pad_16 using n by simp
  show ?thesis
    unfolding unpad_def last v Let_def
    using ne n unfolding pad_16 by simp arith
qed

lemma AES_constructor_valid:
  assumes "length k \<in> {16, 24, 32}"
    and "this_mode options = CBC \<longrightarrow> (\<exists>v. this_iv options = Some v \<and> length v = 16)"
  shows "AES_constructor k options =
           Inr \<lparr>key = keyExpansion k, mode = this_mode options, iv = this_iv options,
                 padding = this_padding options\<rparr>"
  using assms by (auto simp: AES_constructor_def)

lemma encrypt_ECB:
  "mode this = ECB \<Longrightarrow>
   encrypt this data = Inr (map_blocks (encryptBlock (key this)) (pad data (padding this) 16))"
  by (simp add: encrypt_def Let_def ecb_encrypt_loop_blocks length_pad_16)

lemma encrypt_CBC:
  "mode this = CBC \<Longrightarrow>
   encrypt this data =
     Inr (cbc_encrypt_chain (key this) (the (iv this)) (pad data (padding this) 16))"
  by (simp add: encrypt_def Let_def cbc_encrypt_loop_chain length_pad_16 ECB_def CBC_def)

lemma decrypt_ECB:
  "mode this = ECB \<Longrightarrow> 16 dvd length data \<Longrightarrow>
   decrypt this data = unpad (map_blocks (decryptBlock (key this)) data) (padding this) 16"
  by (simp add: decrypt_def Let_def ecb_decrypt_loop_blocks dvd_eq_mod_eq_0)

lemma decrypt_CBC:
  "mode this = CBC \<Longrightarrow> 16 dvd length data \<Longrightarrow>
   decrypt this data =
     unpad (cbc_decrypt_chain (key this) (the (iv this)) data) (padding this) 16"
  by (simp add: decrypt_def Let_def cbc_decrypt_loop_chain dvd_eq_mod_eq_0 ECB_def CBC_def)

lemma round_trip_ECB:
  assumes "mode this = ECB"
  shows "\<exists>c. encrypt this p = Inr c \<and> decrypt this c = Inr p"
  using assms
  by (simp add: encrypt_ECB decrypt_ECB length_map_blocks_encrypt length_pad_16
      map_blocks_round_trip unpad_pad_16)

lemma round_trip_CBC:
  assumes "mode this = CBC"
  shows "\<exists>c. encrypt this p = Inr c \<and> decrypt this c = Inr p"
  using assms
  by (simp add: encrypt_CBC decrypt_CBC length_cbc_encrypt_chain length_pad_16
      cbc_chain_round_trip unpad_pad_16)

text \<open>
  C1. For every key of 16, 24 or 32 bytes, every mode the class supports (ECB, CBC)
  and, in CBC mode, every IV of 16 bytes, the constructor succeeds, and on the
  instance \<open>encrypt\<close> succeeds on every plaintext and \<open>decrypt\<close> of the result
  returns that plaintext.
\<close>

theorem encrypt_decrypt_round_trip:
  assumes "length k \<in> {16, 24, 32}"
    and "this_mode options \<in> {ECB, CBC}"
    and "this_mode options = CBC \<longrightarrow> (\<exists>v. this_iv options = Some v \<and> length v = 16)"
  shows "\<exists>this c. AES_constructor k options = Inr this
           \<and> encrypt this p = Inr c \<and> decrypt this c = Inr p"
proof -
  let ?aes = "\<lparr>key = keyExpansion k, mode = this_mode options, iv = this_iv options,
                 padding = this_padding options\<rparr>"
  have "AES_constructor k options = Inr ?aes"
    using assms(1,3) by (rule AES_constructor_valid)
  moreover have "\<exists>c. encrypt ?aes p = Inr c \<and> decrypt ?aes c = Inr p"
    using assms(2) round_trip_ECB [of ?aes p] round_trip_CBC [of ?aes p] by auto
  ultimately show ?thesis
    by blast
qed

theorem encrypt_decrypt_round_trip_witness:
  "length bytes_1_16 \<in> {16, 24, 32}
   \<and> this_mode cbc_options \<in> {ECB, CBC}
   \<and> (\<exists>v. this_iv cbc_options = Some v \<and> length v = 16)
   \<and> (\<exists>this c. AES_constructor bytes_1_16 cbc_options = Inr this
          \<and> encrypt this [1, 2, 3] = Inr c \<and> decrypt this c = Inr [1, 2, 3])"
proof -
  have h1: "length bytes_1_16 \<in> {16, 24, 32}"
    by (simp add: bytes_1_16_def)
  have h2: "this_mode cbc_options \<in> {ECB, CBC}"
    by (simp add: this_mode_def cbc_options_def CBC_def)
  have h3: "\<exists>v. this_iv cbc_options = Some v \<and> length v = 16"
    by (simp add: this_iv_def cbc_options_def bytes_1_16_def)
  from h3 have h3': "this_mode cbc_options = CBC
      \<longrightarrow> (\<exists>v. this_iv cbc_options = Some v \<and> length v = 16)"
    by simp
  show ?thesis
    using h1 h2 h3 encrypt_decrypt_round_trip [OF h1 h2 h3', of "[1, 2, 3]"] by simp
qed

section \<open>Errors\<close>

text \<open>
  C6. The claim: construction with a key whose length is not 16, 24 or 32 fails with
  the key-length error. The constructor looks at the IV first: in CBC mode without
  an IV, a key of 17 bytes gives the error "IV is not set.", not the key-length
  error.
\<close>

theorem key_length_error_not_first:
  "length (replicate 17 (0 :: byte)) \<notin> {16, 24, 32}
   \<and> AES_constructor (replicate 17 0) cbc_no_iv = Inl IVNotSet
   \<and> AES_constructor (replicate 17 0) cbc_no_iv \<noteq> Inl KeyLength"
  by (simp add: AES_constructor_def cbc_no_iv_def this_mode_def this_iv_def CBC_def)

text \<open>
  C6, as the code has it: construction with a key whose length is not 16, 24 or 32
  always fails: with the key-length error whenever the check of the IV passes (the
  mode is not CBC, as with no options at all, or the IV has 16 bytes), and with the
  IV error otherwise, which is "IV is not set." when CBC has no IV and "IV should be
  16 bytes long." when its IV has another length. Construction with a key of 16, 24
  or 32 bytes never gives the key-length error.
\<close>

theorem constructor_key_length:
  "(length k \<notin> {16, 24, 32} \<longrightarrow>
      (\<exists>e. AES_constructor k options = Inl e)
      \<and> ((this_mode options = CBC \<longrightarrow> (\<exists>v. this_iv options = Some v \<and> length v = 16))
           \<longrightarrow> AES_constructor k options = Inl KeyLength)
      \<and> (this_mode options = CBC \<and> this_iv options = None
           \<longrightarrow> AES_constructor k options = Inl IVNotSet)
      \<and> (this_mode options = CBC \<and> (\<exists>v. this_iv options = Some v \<and> length v \<noteq> 16)
           \<longrightarrow> AES_constructor k options = Inl IVLength))
   \<and> (length k \<in> {16, 24, 32} \<longrightarrow> AES_constructor k options \<noteq> Inl KeyLength)"
  by (auto simp: AES_constructor_def)

theorem constructor_key_length_witness:
  "length (replicate 17 (0 :: byte)) \<notin> {16, 24, 32}
   \<and> this_mode None \<noteq> CBC
   \<and> AES_constructor (replicate 17 0) None = Inl KeyLength
   \<and> this_mode cbc_options = CBC \<and> this_iv cbc_options = Some bytes_1_16
   \<and> length bytes_1_16 = 16
   \<and> AES_constructor (replicate 17 0) cbc_options = Inl KeyLength
   \<and> this_mode cbc_no_iv = CBC \<and> this_iv cbc_no_iv = None
   \<and> AES_constructor (replicate 17 0) cbc_no_iv = Inl IVNotSet
   \<and> this_mode cbc_short_iv = CBC \<and> this_iv cbc_short_iv = Some [1, 2, 3]
   \<and> AES_constructor (replicate 17 0) cbc_short_iv = Inl IVLength
   \<and> length bytes_1_16 \<in> {16, 24, 32}
   \<and> AES_constructor bytes_1_16 None \<noteq> Inl KeyLength
   \<and> AES_constructor bytes_1_16 cbc_options \<noteq> Inl KeyLength"
proof -
  have k: "length (replicate 17 (0 :: byte)) \<notin> {16, 24, 32}"
    by simp
  have l: "length bytes_1_16 = 16"
    by (simp add: bytes_1_16_def)
  have m: "this_mode None \<noteq> CBC" "this_mode cbc_options = CBC" "this_mode cbc_no_iv = CBC"
    "this_mode cbc_short_iv = CBC"
    by (simp_all add: this_mode_def ECB_def CBC_def cbc_options_def cbc_no_iv_def
        cbc_short_iv_def)
  have v: "this_iv cbc_options = Some bytes_1_16" "this_iv cbc_no_iv = None"
    "this_iv cbc_short_iv = Some [1, 2, 3]"
    by (simp_all add: this_iv_def cbc_options_def cbc_no_iv_def cbc_short_iv_def)
  have "AES_constructor (replicate 17 0) None = Inl KeyLength"
    using constructor_key_length [of "replicate 17 0" None] k m(1) by blast
  moreover have "AES_constructor (replicate 17 0) cbc_options = Inl KeyLength"
    using constructor_key_length [of "replicate 17 0" cbc_options] k v(1) l by blast
  moreover have "AES_constructor (replicate 17 0) cbc_no_iv = Inl IVNotSet"
    using constructor_key_length [of "replicate 17 0" cbc_no_iv] k m(3) v(2) by blast
  moreover have "AES_constructor (replicate 17 0) cbc_short_iv = Inl IVLength"
  proof -
    have "\<exists>w. this_iv cbc_short_iv = Some w \<and> length w \<noteq> 16"
      by (simp add: v(3))
    then show ?thesis
      using constructor_key_length [of "replicate 17 0" cbc_short_iv] k m(4) by blast
  qed
  moreover have "AES_constructor bytes_1_16 None \<noteq> Inl KeyLength"
    "AES_constructor bytes_1_16 cbc_options \<noteq> Inl KeyLength"
    using constructor_key_length [of bytes_1_16 None]
      constructor_key_length [of bytes_1_16 cbc_options] l by simp_all
  ultimately show ?thesis
    using k l m v by simp
qed

text \<open>
  C8. In ECB or CBC mode, \<open>decrypt\<close> of a ciphertext whose length is not a multiple
  of 16 (17 bytes, say) fails with the input-length error; the result is the error
  and nothing else.
\<close>

theorem decrypt_input_length:
  "mode this = ECB \<or> mode this = CBC \<Longrightarrow> length data mod 16 \<noteq> 0 \<Longrightarrow>
   decrypt this data = Inl InputLength"
  by (simp add: decrypt_def)

theorem decrypt_input_length_witness:
  "mode ecb_instance = ECB \<and> mode cbc_instance = CBC
   \<and> length (replicate 17 (0 :: byte)) mod 16 \<noteq> 0
   \<and> decrypt ecb_instance (replicate 17 0) = Inl InputLength
   \<and> decrypt cbc_instance (replicate 17 0) = Inl InputLength"
proof -
  have m: "mode ecb_instance = ECB" "mode cbc_instance = CBC"
    by (simp_all add: ecb_instance_def cbc_instance_def)
  have l: "length (replicate 17 (0 :: byte)) mod 16 \<noteq> 0"
    by simp
  show ?thesis
    using m l decrypt_input_length [of ecb_instance "replicate 17 0"]
      decrypt_input_length [of cbc_instance "replicate 17 0"]
    by blast
qed

section \<open>The IV and the calls on one instance\<close>

lemma ECB_same_output:
  assumes "mode a1 = ECB" "mode a2 = ECB" "key a1 = key a2" "padding a1 = padding a2"
  shows "encrypt a1 data = encrypt a2 data" "decrypt a1 data = decrypt a2 data"
  using assms by (simp_all add: encrypt_def decrypt_def)

text \<open>
  C10. With a valid key and a mode option that selects ECB (absent, the falsy 0, or
  ECB itself), the constructor succeeds whatever the \<open>iv\<close> option is (absent or
  bytes of any length), and for any two values of it \<open>encrypt\<close> and \<open>decrypt\<close> give
  the same result on every input.
\<close>

theorem ecb_ignores_iv:
  assumes "length k \<in> {16, 24, 32}"
    and "opt_mode opt \<in> {None, Some 0, Some ECB}"
  shows "\<exists>a1 a2.
           AES_constructor k (Some (opt\<lparr>opt_iv := v1\<rparr>)) = Inr a1
           \<and> AES_constructor k (Some (opt\<lparr>opt_iv := v2\<rparr>)) = Inr a2
           \<and> mode a1 = ECB \<and> mode a2 = ECB
           \<and> (\<forall>data. encrypt a1 data = encrypt a2 data \<and> decrypt a1 data = decrypt a2 data)"
proof -
  let ?a = "\<lambda>v. \<lparr>key = keyExpansion k, mode = ECB, iv = v, padding = this_padding (Some opt)\<rparr>"
  have m: "this_mode (Some (opt\<lparr>opt_iv := v\<rparr>)) = ECB" for v
    using assms(2) by (auto simp: this_mode_def)
  have "AES_constructor k (Some (opt\<lparr>opt_iv := v\<rparr>)) = Inr (?a v)" for v
    using assms(1) by (simp add: AES_constructor_def m ECB_def CBC_def this_iv_def this_padding_def)
  moreover have "encrypt (?a v1) data = encrypt (?a v2) data
      \<and> decrypt (?a v1) data = decrypt (?a v2) data" for data
    by (simp add: ECB_same_output)
  ultimately show ?thesis
    by (intro exI [of _ "?a v1"] exI [of _ "?a v2"]) simp
qed

theorem ecb_ignores_iv_witness:
  "length bytes_1_16 \<in> {16, 24, 32}
   \<and> opt_mode \<lparr>opt_mode = None, opt_iv = None, opt_padding = None\<rparr> \<in> {None, Some 0, Some ECB}
   \<and> (\<exists>a1 a2.
         AES_constructor bytes_1_16 (Some \<lparr>opt_mode = None, opt_iv = None, opt_padding = None\<rparr>)
           = Inr a1
         \<and> AES_constructor bytes_1_16
             (Some \<lparr>opt_mode = None, opt_iv = Some [1, 2, 3], opt_padding = None\<rparr>) = Inr a2
         \<and> mode a1 = ECB \<and> mode a2 = ECB
         \<and> (\<forall>data. encrypt a1 data = encrypt a2 data \<and> decrypt a1 data = decrypt a2 data))"
proof -
  have h1: "length bytes_1_16 \<in> {16, 24, 32}"
    by (simp add: bytes_1_16_def)
  have h2: "opt_mode \<lparr>opt_mode = None, opt_iv = None, opt_padding = None\<rparr>
      \<in> {None, Some 0, Some ECB}"
    by simp
  show ?thesis
    using h1 h2 ecb_ignores_iv [OF h1 h2, of None "Some [1, 2, 3]"] by simp
qed

text \<open>
  C9. The claim: a second call on a CBC instance chains from the state the first
  call left, so that it differs from the same call on a fresh instance. In the code
  the chaining value is the local variable \<open>prev\<close>, set to \<open>this.iv\<close> at the start of
  every call, and no call changes the instance: the second call on the instance
  gives what a first call on a fresh instance gives.
\<close>

theorem second_call_same_as_fresh:
  "AES_constructor bytes_1_16 cbc_options = Inr cbc_instance
   \<and> snd (encrypt_call cbc_instance bytes_1_16) = cbc_instance
   \<and> fst (encrypt_call (snd (encrypt_call cbc_instance bytes_1_16)) bytes_1_16)
       = fst (encrypt_call cbc_instance bytes_1_16)
   \<and> snd (decrypt_call cbc_instance bytes_1_16) = cbc_instance
   \<and> fst (decrypt_call (snd (decrypt_call cbc_instance bytes_1_16)) bytes_1_16)
       = fst (decrypt_call cbc_instance bytes_1_16)"
proof -
  have "length bytes_1_16 \<in> {16, 24, 32}"
    by (simp add: bytes_1_16_def)
  moreover have "this_mode cbc_options = CBC \<longrightarrow>
      (\<exists>v. this_iv cbc_options = Some v \<and> length v = 16)"
    by (simp add: this_iv_def cbc_options_def bytes_1_16_def)
  ultimately have "AES_constructor bytes_1_16 cbc_options =
      Inr \<lparr>key = keyExpansion bytes_1_16, mode = this_mode cbc_options,
           iv = this_iv cbc_options, padding = this_padding cbc_options\<rparr>"
    by (rule AES_constructor_valid)
  then have "AES_constructor bytes_1_16 cbc_options = Inr cbc_instance"
    by (simp add: cbc_instance_def this_mode_def this_iv_def this_padding_def cbc_options_def
        CBC_def)
  then show ?thesis
    by (simp add: encrypt_call_def decrypt_call_def)
qed

text \<open>
  C9, as the code has it: a call of \<open>encrypt\<close> or \<open>decrypt\<close> on a CBC instance leaves
  the instance as it was, and every call, also one after another call on the same
  instance, chains from the IV given at construction: the result is the CBC chain
  that starts from \<open>this.iv\<close>.
\<close>

theorem cbc_calls_start_from_iv:
  "mode this = CBC \<Longrightarrow>
     snd (encrypt_call this m1) = this \<and> snd (decrypt_call this m1) = this
     \<and> fst (encrypt_call (snd (encrypt_call this m1)) m2)
         = Inr (cbc_encrypt_chain (key this) (the (iv this)) (pad m2 (padding this) 16))
     \<and> (16 dvd length m2 \<longrightarrow>
          fst (decrypt_call (snd (decrypt_call this m1)) m2)
            = unpad (cbc_decrypt_chain (key this) (the (iv this)) m2) (padding this) 16)"
  by (simp add: encrypt_call_def decrypt_call_def encrypt_CBC decrypt_CBC)

theorem cbc_calls_start_from_iv_witness:
  "mode cbc_instance = CBC
   \<and> snd (encrypt_call cbc_instance [1]) = cbc_instance
   \<and> snd (decrypt_call cbc_instance [1]) = cbc_instance
   \<and> fst (encrypt_call (snd (encrypt_call cbc_instance [1])) [2])
       = Inr (cbc_encrypt_chain (key cbc_instance) (the (iv cbc_instance))
               (pad [2] (padding cbc_instance) 16))
   \<and> 16 dvd length bytes_1_16
   \<and> fst (decrypt_call (snd (decrypt_call cbc_instance [1])) bytes_1_16)
       = unpad (cbc_decrypt_chain (key cbc_instance) (the (iv cbc_instance)) bytes_1_16)
           (padding cbc_instance) 16"
proof -
  have m: "mode cbc_instance = CBC"
    by (simp add: cbc_instance_def)
  have "length bytes_1_16 = 16"
    by (simp add: bytes_1_16_def)
  then have d: "16 dvd length bytes_1_16"
    by simp
  show ?thesis
    using m d cbc_calls_start_from_iv [OF m, of "[1]" "[2]"]
      cbc_calls_start_from_iv [OF m, of "[1]" bytes_1_16]
    by blast
qed

section \<open>The feedback modes of the spec\<close>

text \<open>
  The class \<open>AES\<close> itself knows no mode but ECB and CBC: with any other number as
  its mode, \<open>encrypt\<close> pads and then fails, and \<open>decrypt\<close> fails as well.
\<close>

lemma unsupported_mode:
  assumes "mode this \<noteq> ECB" "mode this \<noteq> CBC"
  shows "encrypt this data = Inl UnsupportedMode"
    and "16 dvd length data \<Longrightarrow> decrypt this data = Inl UnsupportedMode"
  using assms by (simp_all add: encrypt_def decrypt_def Let_def dvd_eq_mod_eq_0)

lemma length_cfb_encrypt_gen:
  "length prev = 16 \<or> data = [] \<Longrightarrow> length (cfb_encrypt k prev data) = length data"
proof (induction k prev data rule: cfb_encrypt.induct)
  case (1 k prev data)
  show ?case
  proof (cases "data = []")
    case True
    then show ?thesis
      by (simp add: cfb_encrypt.simps [of _ _ "[]"])
  next
    case False
    let ?c = "map2 (XOR) (take 16 data) (encryptBlock k prev)"
    from False "1.prems" have prev: "length prev = 16"
      by simp
    then have len: "length ?c = min (length data) 16"
      by simp
    then have "length ?c = 16 \<or> drop 16 data = []"
      by (auto simp: min_def)
    then have "length (cfb_encrypt k ?c (drop 16 data)) = length (drop 16 data)"
      by (rule "1.IH" [OF False refl refl])
    moreover have "cfb_encrypt k prev data = ?c @ cfb_encrypt k ?c (drop 16 data)"
      using False by (subst cfb_encrypt.simps) (simp add: Let_def)
    ultimately show ?thesis
      using len by (simp add: min_def)
  qed
qed

lemma length_cfb_decrypt_gen:
  "length prev = 16 \<or> data = [] \<Longrightarrow> length (cfb_decrypt k prev data) = length data"
proof (induction k prev data rule: cfb_decrypt.induct)
  case (1 k prev data)
  show ?case
  proof (cases "data = []")
    case True
    then show ?thesis
      by (simp add: cfb_decrypt.simps [of _ _ "[]"])
  next
    case False
    let ?p = "map2 (XOR) (take 16 data) (encryptBlock k prev)"
    from False "1.prems" have prev: "length prev = 16"
      by simp
    then have len: "length ?p = min (length data) 16"
      by simp
    have "length (take 16 data) = 16 \<or> drop 16 data = []"
      by (auto simp: min_def)
    then have "length (cfb_decrypt k (take 16 data) (drop 16 data)) = length (drop 16 data)"
      by (rule "1.IH" [OF False refl refl refl])
    moreover have "cfb_decrypt k prev data = ?p @ cfb_decrypt k (take 16 data) (drop 16 data)"
      using False by (subst cfb_decrypt.simps) (simp add: Let_def)
    ultimately show ?thesis
      using len by (simp add: min_def)
  qed
qed

lemma length_ofb_crypt_gen:
  "length prev = 16 \<or> data = [] \<Longrightarrow> length (ofb_crypt k prev data) = length data"
proof (induction k prev data rule: ofb_crypt.induct)
  case (1 k prev data)
  show ?case
  proof (cases "data = []")
    case True
    then show ?thesis
      by (simp add: ofb_crypt.simps [of _ _ "[]"])
  next
    case False
    let ?ks = "encryptBlock k prev"
    let ?o = "map2 (XOR) (take 16 data) ?ks"
    from False "1.prems" have prev: "length prev = 16"
      by simp
    then have len: "length ?o = min (length data) 16"
      by simp
    have "length ?ks = 16 \<or> drop 16 data = []"
      using prev by simp
    then have "length (ofb_crypt k ?ks (drop 16 data)) = length (drop 16 data)"
      by (rule "1.IH" [OF False refl refl])
    moreover have "ofb_crypt k prev data = ?o @ ofb_crypt k ?ks (drop 16 data)"
      using False by (subst ofb_crypt.simps) (simp add: Let_def)
    ultimately show ?thesis
      using len by (simp add: min_def)
  qed
qed

text \<open>
  C7. In the CFB and OFB modes as the spec describes them, with an IV of 16 bytes,
  the output is exactly as long as the input, on every input and also when the
  length is not a multiple of 16; the padding scheme, which always adds bytes, has
  no part in them.
\<close>

theorem feedback_modes_keep_length:
  "length v = 16 \<Longrightarrow>
     length (cfb_encrypt k v data) = length data
     \<and> length (cfb_decrypt k v data) = length data
     \<and> length (ofb_crypt k v data) = length data"
  by (simp add: length_cfb_encrypt_gen length_cfb_decrypt_gen length_ofb_crypt_gen)

theorem feedback_modes_keep_length_witness:
  "length (replicate 16 (0 :: byte)) = 16
   \<and> length (cfb_encrypt (keyExpansion bytes_1_16) (replicate 16 0) (replicate 33 0)) = 33
   \<and> length (cfb_decrypt (keyExpansion bytes_1_16) (replicate 16 0) (replicate 33 0)) = 33
   \<and> length (ofb_crypt (keyExpansion bytes_1_16) (replicate 16 0) (replicate 33 0)) = 33"
  using feedback_modes_keep_length
    [of "replicate 16 0" "keyExpansion bytes_1_16" "replicate 33 0"]
  by simp

text \<open>
  The feedback modes of the spec also give the plaintext back, whatever its length.
\<close>

lemma map2_xor_twice:
  "length xs \<le> length ks \<Longrightarrow> map2 (XOR) (map2 (XOR) xs ks) ks = (xs :: bytes)"
proof (induction xs arbitrary: ks)
  case Nil
  then show ?case by simp
next
  case (Cons x xs)
  then obtain k ks' where "ks = k # ks'"
    by (cases ks) auto
  with Cons show ?case
    by (simp add: bit.xor_left_self ac_simps)
qed

lemma cfb_decrypt_unfold:
  "xs \<noteq> [] \<Longrightarrow>
   cfb_decrypt k prev xs
     = map2 (XOR) (take 16 xs) (encryptBlock k prev) @ cfb_decrypt k (take 16 xs) (drop 16 xs)"
  by (subst cfb_decrypt.simps) (simp add: Let_def)

lemma ofb_crypt_unfold:
  "xs \<noteq> [] \<Longrightarrow>
   ofb_crypt k prev xs
     = map2 (XOR) (take 16 xs) (encryptBlock k prev)
       @ ofb_crypt k (encryptBlock k prev) (drop 16 xs)"
  by (subst ofb_crypt.simps) (simp add: Let_def)

lemma first_segment:
  assumes "length c = min n 16" "length rest = n - 16" "0 < n"
  shows "take 16 (c @ rest) = c" "drop 16 (c @ rest) = rest" "c @ rest \<noteq> []"
  using assms by (auto simp: min_def)

lemma cfb_round_trip_gen:
  "length prev = 16 \<or> data = [] \<Longrightarrow> cfb_decrypt k prev (cfb_encrypt k prev data) = data"
proof (induction k prev data rule: cfb_encrypt.induct)
  case (1 k prev data)
  show ?case
  proof (cases "data = []")
    case True
    then show ?thesis
      by (simp add: cfb_encrypt.simps [of _ _ "[]"] cfb_decrypt.simps [of _ _ "[]"])
  next
    case False
    define ks where "ks = encryptBlock k prev"
    define c where "c = map2 (XOR) (take 16 data) ks"
    define rest where "rest = cfb_encrypt k c (drop 16 data)"
    from False "1.prems" have prev: "length ks = 16"
      by (simp add: ks_def)
    then have len: "length c = min (length data) 16"
      by (simp add: c_def)
    then have side: "length c = 16 \<or> drop 16 data = []"
      by (auto simp: min_def)
    then have lrest: "length rest = length data - 16"
      by (simp add: rest_def length_cfb_encrypt_gen)
    have enc: "cfb_encrypt k prev data = c @ rest"
      using False by (subst cfb_encrypt.simps) (simp add: Let_def c_def rest_def ks_def)
    have pos: "0 < length data"
      using False by simp
    note seg = first_segment [OF len lrest pos]
    have "cfb_decrypt k prev (c @ rest) = map2 (XOR) c ks @ cfb_decrypt k c rest"
      by (simp only: cfb_decrypt_unfold [OF seg(3)] seg(1,2) ks_def)
    also have "map2 (XOR) c ks = take 16 data"
      using prev by (simp add: c_def map2_xor_twice)
    also have "cfb_decrypt k c rest = drop 16 data"
      unfolding rest_def using side
      by (intro "1.IH" [OF False ks_def c_def])
    finally show ?thesis
      by (simp add: enc)
  qed
qed

lemma ofb_round_trip_gen:
  "length prev = 16 \<or> data = [] \<Longrightarrow> ofb_crypt k prev (ofb_crypt k prev data) = data"
proof (induction k prev data rule: ofb_crypt.induct)
  case (1 k prev data)
  show ?case
  proof (cases "data = []")
    case True
    then show ?thesis
      by (simp add: ofb_crypt.simps [of _ _ "[]"])
  next
    case False
    define ks where "ks = encryptBlock k prev"
    define out where "out = map2 (XOR) (take 16 data) ks"
    define rest where "rest = ofb_crypt k ks (drop 16 data)"
    from False "1.prems" have prev: "length ks = 16"
      by (simp add: ks_def)
    then have len: "length out = min (length data) 16"
      by (simp add: out_def)
    from prev have side: "length ks = 16 \<or> drop 16 data = []"
      by (rule disjI1)
    have lrest: "length rest = length data - 16"
      using prev by (simp add: rest_def length_ofb_crypt_gen)
    have enc: "ofb_crypt k prev data = out @ rest"
      using False by (subst ofb_crypt.simps) (simp add: Let_def out_def rest_def ks_def)
    have pos: "0 < length data"
      using False by simp
    note seg = first_segment [OF len lrest pos]
    have "ofb_crypt k prev (out @ rest) = map2 (XOR) out ks @ ofb_crypt k ks rest"
      by (simp only: ofb_crypt_unfold [OF seg(3)] seg(1,2) ks_def)
    also have "map2 (XOR) out ks = take 16 data"
      using prev by (simp add: out_def map2_xor_twice)
    also have "ofb_crypt k ks rest = drop 16 data"
      unfolding rest_def using side
      by (intro "1.IH" [OF False ks_def out_def])
    finally show ?thesis
      by (simp add: enc)
  qed
qed

lemma feedback_modes_round_trip:
  assumes "length v = 16"
  shows "cfb_decrypt k v (cfb_encrypt k v data) = data"
    and "ofb_crypt k v (ofb_crypt k v data) = data"
  using assms by (simp_all add: cfb_round_trip_gen ofb_round_trip_gen)

section \<open>The key schedule\<close>

lemma spec_substitute_rotate:
  "length w = 4 \<Longrightarrow> spec_rotate (spec_substitute w) = spec_substitute (spec_rotate w)"
  by (simp add: spec_rotate_def spec_substitute_def)

lemma rotWord_nth:
  assumes "a = i * 4" "a + 3 < length ks"
  shows "rotWord ks i = ks[a := ks ! (a + 1), a + 1 := ks ! (a + 2), a + 2 := ks ! (a + 3), a + 3 := ks ! a]"
  using assms by (simp add: rotWord_def Let_def)

lemma subWord_nth:
  assumes "a = i * 4" "a + 3 < length ks"
  shows "subWord ks i = ks[a := SBOX ! unat (ks ! a), a + 1 := SBOX ! unat (ks ! (a + 1)),
     a + 2 := SBOX ! unat (ks ! (a + 2)), a + 3 := SBOX ! unat (ks ! (a + 3))]"
  using assms by (simp add: subWord_def Let_def upt_4)

lemma length_rotWord [simp]: "length (rotWord ks i) = length ks"
  by (simp add: rotWord_def Let_def)

lemma length_subWord [simp]: "length (subWord ks i) = length ks"
  by (simp add: subWord_def Let_def length_fold_update)

lemma length_keyExpansion_body [simp]: "length (keyExpansion_body nk ks i) = length ks"
  by (simp add: keyExpansion_body_def Let_def)

lemma keyExpansion_body_below:
  assumes "j < 4 * i"
  shows "keyExpansion_body nk ks i ! j = ks ! j"
proof -
  have rot: "rotWord xs i ! j = xs ! j" for xs
    using assms by (simp add: rotWord_def Let_def)
  have "fold (\<lambda>n ks. ks[i * 4 + n := f n ks]) ns xs ! j = xs ! j" for f ns and xs :: bytes
    using assms by (induction ns arbitrary: xs) simp_all
  then have sub: "subWord xs i ! j = xs ! j" for xs
    by (simp add: subWord_def Let_def)
  show ?thesis
    using assms by (simp add: keyExpansion_body_def Let_def rot sub)
qed

lemma keyExpansion_body_word:
  assumes "0 < nk" "nk \<le> i" "4 * i + 3 < length ks"
  shows "word_at (keyExpansion_body nk ks i) i
       = spec_xor (word_at ks (i - nk)) (spec_T nk i (word_at ks (i - 1)))"
proof -
  obtain a where a: "a = i * 4" by simp
  obtain p where p: "p = (i - nk) * 4" by simp
  obtain q where q: "q = (i - 1) * 4" by simp
  have pa: "p + 4 \<le> a" "q + 4 = a" "a + 3 < length ks"
    using assms a p q by auto
  have off: "a - 4 = q" "a - 3 = q + 1" "a - 2 = q + 2" "a - 1 = q + 3"
    using pa by auto
  have w: "word_at xs i = [xs ! a, xs ! (a + 1), xs ! (a + 2), xs ! (a + 3)]"
    "word_at xs (i - nk) = [xs ! p, xs ! (p + 1), xs ! (p + 2), xs ! (p + 3)]"
    "word_at xs (i - 1) = [xs ! q, xs ! (q + 1), xs ! (q + 2), xs ! (q + 3)]" for xs :: bytes
    by (simp_all add: word_at_def a p q mult.commute)
  show ?thesis
    unfolding w keyExpansion_body_def Let_def a [symmetric] p [symmetric] off
    using pa
    by (simp add: rotWord_nth [OF a] subWord_nth [OF a] spec_T_def spec_xor_def
        spec_substitute_def spec_rotate_def ac_simps)
qed

lemma keyExpansion_loop_spec:
  assumes "0 < nk" "nk \<le> i" "length ks = 16 * (nr + 1)"
  shows "length (keyExpansion_loop nk nr ks i) = length ks
    \<and> (\<forall>j < 4 * i. keyExpansion_loop nk nr ks i ! j = ks ! j)
    \<and> (\<forall>m. i \<le> m \<and> m < 4 * (nr + 1) \<longrightarrow>
          word_at (keyExpansion_loop nk nr ks i) m
            = spec_xor (word_at (keyExpansion_loop nk nr ks i) (m - nk))
                (spec_T nk m (word_at (keyExpansion_loop nk nr ks i) (m - 1))))"
  using assms
proof (induction nk nr ks i rule: keyExpansion_loop.induct)
  case (1 nk nr ks i)
  show ?case
  proof (cases "i < 4 * (nr + 1)")
    case False
    then have "keyExpansion_loop nk nr ks i = ks"
      by (subst keyExpansion_loop.simps) simp
    moreover have "\<not> (i \<le> m \<and> m < 4 * (nr + 1))" for m
      using False by arith
    ultimately show ?thesis
      by (simp only: simp_thms)
  next
    case True
    let ?ks = "keyExpansion_body nk ks i"
    let ?r = "keyExpansion_loop nk nr ?ks (Suc i)"
    have unfold: "keyExpansion_loop nk nr ks i = ?r"
      using True by (subst keyExpansion_loop.simps) simp
    have IH: "length ?r = length ?ks"
      "\<And>j. j < 4 * i + 4 \<Longrightarrow> ?r ! j = ?ks ! j"
      "\<And>m. Suc i \<le> m \<Longrightarrow> m < 4 * (nr + 1) \<Longrightarrow>
         word_at ?r m = spec_xor (word_at ?r (m - nk)) (spec_T nk m (word_at ?r (m - 1)))"
      using "1.IH" [OF True] "1.prems" by simp_all
    have range: "4 * i + 3 < length ks"
      using True "1.prems" by simp
    have below: "?r ! j = ks ! j" if "j < 4 * i" for j
      using that IH(2) [of j] by (simp add: keyExpansion_body_below)
    have earlier: "word_at ?r m = word_at ks m" if "m < i" for m
      using that by (simp add: word_at_def below)
    have "word_at ?r i = word_at ?ks i"
      by (simp add: word_at_def IH(2))
    also have "\<dots> = spec_xor (word_at ks (i - nk)) (spec_T nk i (word_at ks (i - 1)))"
      using "1.prems" range by (simp add: keyExpansion_body_word)
    also have "\<dots> = spec_xor (word_at ?r (i - nk)) (spec_T nk i (word_at ?r (i - 1)))"
      using "1.prems" by (simp add: earlier)
    finally have here: "word_at ?r i
        = spec_xor (word_at ?r (i - nk)) (spec_T nk i (word_at ?r (i - 1)))" .
    have "word_at ?r m = spec_xor (word_at ?r (m - nk)) (spec_T nk m (word_at ?r (m - 1)))"
      if "i \<le> m" "m < 4 * (nr + 1)" for m
    proof (cases "m = i")
      case True
      with here show ?thesis by simp
    next
      case False
      with that show ?thesis by (simp add: IH(3))
    qed
    then show ?thesis
      unfolding unfold using IH(1) below by simp
  qed
qed

lemma keyExpansion_spec:
  assumes "length k \<in> {16, 24, 32}"
  shows "length (keyExpansion k) = 16 * (length k div 4 + 7)"
    and "take (length k) (keyExpansion k) = k"
    and "length k div 4 \<le> i \<Longrightarrow> i < 4 * (length k div 4 + 7) \<Longrightarrow>
         word_at (keyExpansion k) i
           = spec_xor (word_at (keyExpansion k) (i - length k div 4))
               (spec_T (length k div 4) i (word_at (keyExpansion k) (i - 1)))"
proof -
  let ?nk = "length k div 4"
  let ?ks = "set_array (replicate (16 * (?nk + 6 + 1)) 0) k 0"
  have ke: "keyExpansion k = keyExpansion_loop ?nk (?nk + 6) ?ks ?nk"
    by (simp add: keyExpansion_def Let_def)
  have nk: "0 < ?nk" "4 * ?nk = length k"
    using assms by auto
  have len: "length ?ks = 16 * (?nk + 6 + 1)"
    using assms by (auto simp: set_array_def)
  note spec = keyExpansion_loop_spec [OF nk(1) order_refl len]
  show "length (keyExpansion k) = 16 * (length k div 4 + 7)"
    using spec len by (simp add: ke)
  have "keyExpansion k ! j = k ! j" if "j < length k" for j
    using spec that nk(2) by (simp add: ke set_array_def nth_append)
  moreover have "length k \<le> length (keyExpansion k)"
    using spec len assms by (auto simp: ke)
  ultimately show "take (length k) (keyExpansion k) = k"
    by (simp add: list_eq_iff_nth_eq)
  show "word_at (keyExpansion k) i
           = spec_xor (word_at (keyExpansion k) (i - length k div 4))
               (spec_T (length k div 4) i (word_at (keyExpansion k) (i - 1)))"
    if "length k div 4 \<le> i" "i < 4 * (length k div 4 + 7)"
    using spec that by (simp add: ke)
qed

text \<open>
  C3. For every key of 16, 24 or 32 bytes, with \<open>Nk\<close> the number of words of the key
  and \<open>Nr = Nk + 6\<close>, the expanded key has \<open>16 * (Nr + 1)\<close> bytes, its first \<open>Nk\<close>
  words are the key, and every word \<open>i\<close> from \<open>Nk\<close> up to \<open>4 * (Nr + 1)\<close> is
  \<open>w[i - Nk] XOR T(w[i - 1])\<close> with the spec's \<open>T\<close>.
\<close>

theorem key_schedule_recurrence:
  assumes "length k \<in> {16, 24, 32}"
  shows "let Nk = length k div 4; Nr = Nk + 6; w = keyExpansion k
         in length w = 16 * (Nr + 1) \<and> take (4 * Nk) w = k
            \<and> (\<forall>i. Nk \<le> i \<and> i < 4 * (Nr + 1) \<longrightarrow>
                  word_at w i = spec_xor (word_at w (i - Nk)) (spec_T Nk i (word_at w (i - 1))))"
proof -
  have "4 * (length k div 4) = length k"
    using assms by auto
  then show ?thesis
    using keyExpansion_spec [OF assms] by (simp add: Let_def)
qed

theorem key_schedule_recurrence_witness:
  "length bytes_1_16 \<in> {16, 24, 32}
   \<and> length (keyExpansion bytes_1_16) = 176
   \<and> take 16 (keyExpansion bytes_1_16) = bytes_1_16
   \<and> word_at (keyExpansion bytes_1_16) 4
       = spec_xor (word_at (keyExpansion bytes_1_16) 0)
           (spec_T 4 4 (word_at (keyExpansion bytes_1_16) 3))
   \<and> word_at (keyExpansion bytes_1_16) 43
       = spec_xor (word_at (keyExpansion bytes_1_16) 39)
           (spec_T 4 43 (word_at (keyExpansion bytes_1_16) 42))"
proof -
  have l: "length bytes_1_16 = 16"
    by (simp add: bytes_1_16_def)
  then have h: "length bytes_1_16 \<in> {16, 24, 32}"
    by simp
  from key_schedule_recurrence [OF h]
  have len: "length (keyExpansion bytes_1_16) = 176"
    and first: "take 16 (keyExpansion bytes_1_16) = bytes_1_16"
    and rec: "\<And>i. 4 \<le> i \<Longrightarrow> i < 44 \<Longrightarrow>
      word_at (keyExpansion bytes_1_16) i
        = spec_xor (word_at (keyExpansion bytes_1_16) (i - 4))
            (spec_T 4 i (word_at (keyExpansion bytes_1_16) (i - 1)))"
    by (simp_all add: Let_def l)
  show ?thesis
    using h len first rec [of 4] rec [of 43] by simp
qed

section \<open>The test vector\<close>

lemma word_at_nth: "j < 4 \<Longrightarrow> word_at w i ! j = w ! (4 * i + j)"
proof -
  assume "j < 4"
  then consider "j = 0" | "j = 1" | "j = 2" | "j = 3"
    by linarith
  then show ?thesis
    by cases (simp_all add: word_at_def)
qed

lemma keyExpansion_unique:
  assumes k: "length k \<in> {16, 24, 32}"
    and nk_def: "nk = length k div 4" and n_def: "n = 4 * (nk + 7)"
    and len: "length K = 4 * n"
    and key: "take (length k) K = k"
    and rec': "list_all (\<lambda>i. word_at K i = spec_xor (word_at K (i - nk))
                (spec_T nk i (word_at K (i - 1)))) [nk..<n]"
  shows "keyExpansion k = K"
proof -
  let ?nk = "length k div 4"
  let ?w = "keyExpansion k"
  note spec = keyExpansion_spec [OF k]
  have rec: "list_all (\<lambda>i. word_at K i = spec_xor (word_at K (i - ?nk))
                (spec_T ?nk i (word_at K (i - 1)))) [?nk..<4 * (?nk + 7)]"
    using rec' by (simp only: nk_def n_def)
  have len: "length K = 16 * (?nk + 7)"
    using len by (simp add: nk_def n_def)
  have nk: "0 < ?nk" "4 * ?nk = length k"
    using k by auto
  have first: "word_at ?w i = word_at K i" if "i < ?nk" for i
  proof -
    have "?w ! j = K ! j" if "j < length k" for j
      using that spec(2) key by (metis nth_take)
    with that nk show ?thesis
      by (simp add: word_at_def)
  qed
  have words: "i < 4 * (?nk + 7) \<Longrightarrow> word_at ?w i = word_at K i" for i
  proof (induction i rule: less_induct)
    case (less i)
    show ?case
    proof (cases "i < ?nk")
      case True
      then show ?thesis by (rule first)
    next
      case False
      then have i: "?nk \<le> i" "i - ?nk < i" "i - 1 < i"
        using nk by simp_all
      have "word_at K i = spec_xor (word_at K (i - ?nk)) (spec_T ?nk i (word_at K (i - 1)))"
        using rec i(1) less.prems by (simp add: list_all_iff)
      moreover have "word_at ?w i
          = spec_xor (word_at ?w (i - ?nk)) (spec_T ?nk i (word_at ?w (i - 1)))"
        using i(1) less.prems by (rule spec(3))
      moreover have "word_at ?w (i - ?nk) = word_at K (i - ?nk)"
        "word_at ?w (i - 1) = word_at K (i - 1)"
        using less.IH i less.prems by simp_all
      ultimately show ?thesis
        by simp
    qed
  qed
  have "?w ! j = K ! j" if "j < length K" for j
  proof -
    have "j div 4 < 4 * (?nk + 7)" "j mod 4 < 4"
      using that len by simp_all
    then have "word_at ?w (j div 4) ! (j mod 4) = word_at K (j div 4) ! (j mod 4)"
      by (simp add: words)
    then show ?thesis
      by (simp add: word_at_nth)
  qed
  then show ?thesis
    using spec(1) len by (simp add: list_eq_iff_nth_eq)
qed

lemma K128_recurrence:
  "list_all (\<lambda>i. word_at K128 i = spec_xor (word_at K128 (i - 4)) (spec_T 4 i (word_at K128 (i - 1))))
     [4..<44]"
  by code_simp

lemma length_K128: "length K128 = 176"
  by (simp add: K128_def)

lemma keyExpansion_bytes_1_16: "keyExpansion bytes_1_16 = K128"
proof (rule keyExpansion_unique [where nk = 4 and n = 44])
  have l: "length bytes_1_16 = 16"
    by (simp add: bytes_1_16_def)
  show "length bytes_1_16 \<in> {16, 24, 32}"
    by (simp add: l)
  show "4 = length bytes_1_16 div 4"
    by (simp add: l)
  show "(44 :: nat) = 4 * (4 + 7)"
    by simp
  show "length K128 = 4 * 44"
    by (simp add: length_K128)
  show "take (length bytes_1_16) K128 = bytes_1_16"
    unfolding l by (simp add: K128_def bytes_1_16_def)
  show "list_all (\<lambda>i. word_at K128 i = spec_xor (word_at K128 (i - 4))
                (spec_T 4 i (word_at K128 (i - 1)))) [4..<44]"
    by (rule K128_recurrence)
qed

lemma upt_1_10: "[Suc 0..<10] = [1, 2, 3, 4, 5, 6, 7, 8, 9]"
  by (simp add: upt_rec)

lemmas block_eval = addRoundKey_block subBytes_block shiftRows_block mixColumns_block
  mix_byte_def spec_double_def

lemma encryptBlock_K128_bytes_1_16:
  "encryptBlock K128 bytes_1_16
     = [0x34, 0xc3, 0x3b, 0x7f, 0x14, 0xfd, 0x53, 0xdc, 0xea, 0x25, 0xe0, 0x1a, 0x02, 0xe1, 0x67, 0x27]"
  by (simp add: encryptBlock_def Let_def length_K128 upt_1_10 bytes_1_16_def block_eval
      K128_def SBOX_def)

lemma encryptBlock_K128_padding:
  "encryptBlock K128 [16, 16, 16, 16, 16, 16, 16, 16, 16, 16, 16, 16, 16, 16, 16, 16]
     = [108, 192, 10, 102, 210, 173, 131, 255, 215, 110, 154, 43, 202, 216, 154, 1]"
  by (simp add: encryptBlock_def Let_def length_K128 upt_1_10 block_eval
      K128_def SBOX_def)

lemma map_blocks_Nil: "map_blocks f [] = []"
  by (subst map_blocks.simps) simp

lemma map_blocks_append:
  assumes "length b = 16"
  shows "map_blocks f (b @ rest) = f b @ map_blocks f rest"
proof -
  from assms have "b \<noteq> []"
    by (metis list.size(3) zero_neq_numeral)
  then show ?thesis
    using assms by (subst map_blocks.simps) simp
qed

lemma map_blocks_single:
  assumes "length b = 16"
  shows "map_blocks f b = f b"
  using map_blocks_append [OF assms, of f "[]"] by (simp add: map_blocks_Nil)

lemma pad_two_blocks:
  "pad (bytes_1_16 @ bytes_1_16) PKCS7 16
     = bytes_1_16 @ bytes_1_16 @ [16, 16, 16, 16, 16, 16, 16, 16, 16, 16, 16, 16, 16, 16, 16, 16]"
proof -
  have "length (bytes_1_16 @ bytes_1_16) = 32"
    by (simp add: bytes_1_16_def)
  then have "pad (bytes_1_16 @ bytes_1_16) PKCS7 16
      = (bytes_1_16 @ bytes_1_16) @ replicate 16 16"
    by (simp add: pad_def Let_def)
  also have "replicate 16 (16 :: byte)
      = [16, 16, 16, 16, 16, 16, 16, 16, 16, 16, 16, 16, 16, 16, 16, 16]"
    by (simp add: numeral_eq_Suc)
  finally show ?thesis
    by simp
qed

lemma AES_constructor_ecb_instance: "AES_constructor bytes_1_16 None = Inr ecb_instance"
  by (simp add: AES_constructor_def this_mode_def this_iv_def this_padding_def ECB_def CBC_def
      ecb_instance_def bytes_1_16_def)

lemma encrypt_two_blocks:
  "encrypt ecb_instance (bytes_1_16 @ bytes_1_16)
     = Inr ([0x34, 0xc3, 0x3b, 0x7f, 0x14, 0xfd, 0x53, 0xdc, 0xea, 0x25, 0xe0, 0x1a, 0x02, 0xe1, 0x67, 0x27]
          @ [0x34, 0xc3, 0x3b, 0x7f, 0x14, 0xfd, 0x53, 0xdc, 0xea, 0x25, 0xe0, 0x1a, 0x02, 0xe1, 0x67, 0x27]
          @ [0x6c, 0xc0, 0x0a, 0x66, 0xd2, 0xad, 0x83, 0xff, 0xd7, 0x6e, 0x9a, 0x2b, 0xca, 0xd8, 0x9a, 0x01])"
proof -
  have f: "mode ecb_instance = ECB" "key ecb_instance = K128" "padding ecb_instance = PKCS7"
    by (simp_all add: ecb_instance_def keyExpansion_bytes_1_16)
  have l: "length bytes_1_16 = 16"
    "length [16, 16, 16, 16, 16, 16, 16, 16, 16, 16, 16, 16, 16, 16, 16, 16 :: byte] = 16"
    by (simp_all add: bytes_1_16_def)
  show ?thesis
    unfolding encrypt_ECB [OF f(1)] f pad_two_blocks
    by (simp only: map_blocks_append [OF l(1)] map_blocks_single [OF l(2)]
        encryptBlock_K128_bytes_1_16 encryptBlock_K128_padding)
qed

text \<open>
  C2. The claim: with the key \<open>1..16\<close> in ECB mode, \<open>encrypt\<close> of the 32 bytes
  \<open>1..16, 1..16\<close> returns exactly the block \<open>34 c3 3b 7f 14 fd 53 dc ea 25 e0 1a 02 e1
  67 27\<close> twice. The class pads first, PKCS7 by default, and the padding of an aligned
  input is a whole block: the result is not these 32 bytes.
\<close>

theorem ecb_vector_not_exact:
  "AES_constructor bytes_1_16 None = Inr ecb_instance
   \<and> encrypt ecb_instance (bytes_1_16 @ bytes_1_16)
     \<noteq> Inr ([0x34, 0xc3, 0x3b, 0x7f, 0x14, 0xfd, 0x53, 0xdc, 0xea, 0x25, 0xe0, 0x1a, 0x02, 0xe1, 0x67, 0x27]
          @ [0x34, 0xc3, 0x3b, 0x7f, 0x14, 0xfd, 0x53, 0xdc, 0xea, 0x25, 0xe0, 0x1a, 0x02, 0xe1, 0x67, 0x27])"
  by (simp add: AES_constructor_ecb_instance encrypt_two_blocks)

text \<open>
  C2, as the code has it: the result has 48 bytes, the block of the claim twice (the
  two blocks are identical) and then the image of the padding block of sixteen bytes
  0x10.
\<close>

theorem ecb_vector_is_padded:
  "AES_constructor bytes_1_16 None = Inr ecb_instance
   \<and> encrypt ecb_instance (bytes_1_16 @ bytes_1_16)
     = Inr ([0x34, 0xc3, 0x3b, 0x7f, 0x14, 0xfd, 0x53, 0xdc, 0xea, 0x25, 0xe0, 0x1a, 0x02, 0xe1, 0x67, 0x27]
          @ [0x34, 0xc3, 0x3b, 0x7f, 0x14, 0xfd, 0x53, 0xdc, 0xea, 0x25, 0xe0, 0x1a, 0x02, 0xe1, 0x67, 0x27]
          @ [0x6c, 0xc0, 0x0a, 0x66, 0xd2, 0xad, 0x83, 0xff, 0xd7, 0x6e, 0x9a, 0x2b, 0xca, 0xd8, 0x9a, 0x01])"
  using AES_constructor_ecb_instance encrypt_two_blocks by (rule conjI)

end
